theory Spec2Isabelle
  imports Main "HOL-Library.Word"
begin

unbundle bit_operations_syntax

section \<open>The blocks table and the exceptions of the storage layer\<close>

text \<open>
  \<^verbatim>\<open>postgresql_storage\<close> keeps everything in SQL tables and reaches them through cppdb
  statements. A table is the list of its rows. A nullable column is an \<open>option\<close>
  (\<open>None\<close> is SQL NULL). The integer columns are natural numbers, the non-negative
  integers of the data model; the schema that declares their SQL type is not part of the
  sources. Hashes are stored in the textual form written by \<^verbatim>\<open>serialize_bytes\<close>.

  Every exception that the code can raise is a value of \<open>error\<close>:
  \<^item> \<open>length_error\<close>: \<^verbatim>\<open>std::string::resize\<close> with a size beyond \<^verbatim>\<open>max_size()\<close>;
  \<^item> \<open>multiple_rows_query\<close>: cppdb's \<^verbatim>\<open>cppdb::row\<close> fetch when the query has more than one row;
  \<^item> \<open>null_value_fetch\<close>: cppdb's \<^verbatim>\<open>result::get\<close> on a NULL column;
  \<^item> \<open>assertion_failed\<close>: a failing \<^verbatim>\<open>BITCOIN_ASSERT\<close>.
\<close>

datatype error = length_error | multiple_rows_query | null_value_fetch | assertion_failed

record block_row =
  block_id :: nat
  block_hash :: string
  version :: "32 word"
  prev_block_hash :: string
  merkle :: string
  when_created :: "32 word"
  bits_head :: "32 word"
  bits_body :: "32 word"
  nonce :: "32 word"
  depth :: "nat option"
  span_left :: "nat option"
  span_right :: "nat option"

type_synonym blocks_table = "block_row list"

text \<open>
  SQL comparisons with a NULL operand are not true, so a row with a NULL column never
  satisfies a \<^verbatim>\<open>WHERE\<close> clause that compares the column.
\<close>

definition sql_ge :: "nat option \<Rightarrow> nat \<Rightarrow> bool" where
  "sql_ge c v = (case c of None \<Rightarrow> False | Some x \<Rightarrow> x \<ge> v)"

definition sql_le :: "nat option \<Rightarrow> nat \<Rightarrow> bool" where
  "sql_le c v = (case c of None \<Rightarrow> False | Some x \<Rightarrow> x \<le> v)"

definition sql_gt :: "nat option \<Rightarrow> nat \<Rightarrow> bool" where
  "sql_gt c v = (case c of None \<Rightarrow> False | Some x \<Rightarrow> x > v)"

text \<open>
  \<^verbatim>\<open>sql_ << ... << cppdb::row\<close> runs the query and fetches a single row: the result is
  empty when there is no row, and \<^verbatim>\<open>multiple_rows_query\<close> is thrown when there are more
  than one.
\<close>

fun fetch_row :: "'a list \<Rightarrow> error + 'a option" where
  "fetch_row [] = Inr None"
| "fetch_row [r] = Inr (Some r)"
| "fetch_row (r # r' # rs) = Inl multiple_rows_query"

section \<open>serialize_bytes and deserialize_bytes\<close>

type_synonym data_chunk = "8 word list"

type_synonym hash_digest = "8 word list"

text \<open>
  \<^verbatim>\<open>ss << std::hex\<close> followed by \<^verbatim>\<open>ss << std::setw(2) << std::setfill('0') << val\<close>
  writes the \<^verbatim>\<open>int\<close> in lower-case hexadecimal, padded on the left with \<open>0\<close> to two
  characters.
\<close>

definition hex_digit :: "nat \<Rightarrow> char" where
  "hex_digit n = ''0123456789abcdef'' ! (n mod 16)"

fun hex_of_nat :: "nat \<Rightarrow> string" where
  "hex_of_nat n = (if n < 16 then [hex_digit n] else hex_of_nat (n div 16) @ [hex_digit n])"

declare hex_of_nat.simps [simp del]

definition setw2 :: "string \<Rightarrow> string" where
  "setw2 s = replicate (2 - length s) (CHR ''0'') @ s"

text \<open>
  The elements of \<open>data\<close> are bytes (\<^verbatim>\<open>data_chunk\<close> and \<^verbatim>\<open>hash_digest\<close> hold
  \<^verbatim>\<open>uint8_t\<close>), read by the loop as \<^verbatim>\<open>int\<close>. On empty data the stream is empty and
  \<^verbatim>\<open>ret.resize(ret.size() - 1)\<close> asks for the largest \<^verbatim>\<open>size_t\<close>, which
  \<^verbatim>\<open>std::string\<close> refuses with \<^verbatim>\<open>std::length_error\<close>.
\<close>

definition serialize_bytes :: "8 word list \<Rightarrow> error + string" where
  "serialize_bytes data =
     (let ret = concat (map (\<lambda>val. setw2 (hex_of_nat (unat val)) @ '' '') data)
      in if ret = [] then Inl length_error else Inr (take (length ret - 1) ret))"

text \<open>
  The input side of the string stream. \<^verbatim>\<open>ss >> val\<close> in \<^verbatim>\<open>std::hex\<close> mode skips white
  space and reads the longest run of hexadecimal digits. The stream stays \<^verbatim>\<open>good()\<close>
  only if a digit was read (otherwise \<^verbatim>\<open>failbit\<close>), the run ended before the end of
  the buffer (otherwise \<^verbatim>\<open>eofbit\<close>) and the value fits an \<^verbatim>\<open>int\<close> (otherwise
  \<^verbatim>\<open>failbit\<close>). \<open>extract_int\<close> returns the value and the rest of the buffer when the
  stream is still good after the extraction, and \<open>None\<close> when it is not. Signs and
  the \<^verbatim>\<open>0x\<close> prefix, which never occur in what \<^verbatim>\<open>serialize_bytes\<close> writes, are read
  as non-digits.
\<close>

definition is_space :: "char \<Rightarrow> bool" where
  "is_space c = (c = CHR '' '' \<or> (9 \<le> (of_char c :: nat) \<and> (of_char c :: nat) \<le> 13))"

definition xdigit_value :: "char \<Rightarrow> nat option" where
  "xdigit_value c =
     (let n = (of_char c :: nat)
      in if 48 \<le> n \<and> n \<le> 57 then Some (n - 48)
         else if 97 \<le> n \<and> n \<le> 102 then Some (n - 87)
         else if 65 \<le> n \<and> n \<le> 70 then Some (n - 55)
         else None)"

definition is_xdigit :: "char \<Rightarrow> bool" where
  "is_xdigit c = (xdigit_value c \<noteq> None)"

definition hex_value :: "string \<Rightarrow> nat" where
  "hex_value ds =
     foldl (\<lambda>a c. 16 * a + (case xdigit_value c of None \<Rightarrow> 0 | Some d \<Rightarrow> d)) 0 ds"

definition extract_int :: "string \<Rightarrow> (int \<times> string) option" where
  "extract_int ss =
     (let ss1 = dropWhile is_space ss;
          ds = takeWhile is_xdigit ss1;
          rest = dropWhile is_xdigit ss1
      in if ds = [] \<or> rest = [] \<or> hex_value ds > 2 ^ 31 - 1 then None
         else Some (int (hex_value ds), rest))"

lemma extract_int_shorter: "extract_int ss = Some (v, rest) \<Longrightarrow> length rest < length ss"
proof -
  assume a: "extract_int ss = Some (v, rest)"
  define ss1 where "ss1 = dropWhile is_space ss"
  from a have ds: "takeWhile is_xdigit ss1 \<noteq> []" and r: "rest = dropWhile is_xdigit ss1"
    by (auto simp: extract_int_def Let_def ss1_def split: if_splits)
  have "length (takeWhile is_xdigit ss1) + length (dropWhile is_xdigit ss1) = length ss1"
    by (metis length_append takeWhile_dropWhile_id)
  with ds r have "length rest < length ss1"
    by (cases "takeWhile is_xdigit ss1") auto
  moreover have "length ss1 \<le> length ss"
    by (simp add: ss1_def length_dropWhile_le)
  ultimately show ?thesis by simp
qed

text \<open>
  \<^verbatim>\<open>for (int val; ss.good(); ss >> val) stack.push_back(val);\<close>

  The stream is good when the loop is entered, so the body runs before the first
  extraction and pushes \<open>val\<close> as it was declared, without an initialiser: the value
  it holds then is the parameter \<open>uninit\<close>. \<^verbatim>\<open>push_back\<close> narrows the \<^verbatim>\<open>int\<close> to a
  byte. \<open>deserialize_loop val ss stack\<close> is the loop at the start of its body.
\<close>

function deserialize_loop :: "int \<Rightarrow> string \<Rightarrow> 8 word list \<Rightarrow> 8 word list" where
  "deserialize_loop val ss stack =
     (case extract_int ss of
        None \<Rightarrow> stack @ [word_of_int val]
      | Some (val', ss') \<Rightarrow> deserialize_loop val' ss' (stack @ [word_of_int val]))"
  by pat_completeness auto
termination
  by (relation "measure (\<lambda>(val, ss, stack). length ss)") (auto dest: extract_int_shorter)

declare deserialize_loop.simps [simp del]

definition deserialize_bytes :: "int \<Rightarrow> string \<Rightarrow> 8 word list" where
  "deserialize_bytes uninit byte_stream = deserialize_loop uninit byte_stream []"

section \<open>Storing a block\<close>

text \<open>
  The messages, with the fields that the storage code reads. Their declarations
  (bitcoin/block.hpp, bitcoin/transaction.hpp and the message headers) are not among the
  sources; a script stands for the list that \<^verbatim>\<open>operations()\<close> returns, and an opcode for
  its enumerator's number.
\<close>

record operation =
  code :: nat
  data :: data_chunk

record transaction_input =
  hash :: hash_digest
  input_script :: "operation list"
  sequence :: "32 word"

record transaction_output =
  output_value :: "64 word"
  output_script :: "operation list"

record transaction =
  transaction_version :: "32 word"
  locktime :: "32 word"
  inputs :: "transaction_input list"
  outputs :: "transaction_output list"

record block =
  block_version :: "32 word"
  prev_block :: hash_digest
  merkle_root :: hash_digest
  timestamp :: "32 word"
  bits :: "32 word"
  block_nonce :: "32 word"
  transactions :: "transaction list"

text \<open>
  The functions of the library that the storage code calls and whose definitions are
  elsewhere are parameters of the model.
\<close>

record externals =
  hash_block_header :: "block \<Rightarrow> hash_digest"
  hash_transaction :: "transaction \<Rightarrow> hash_digest"
  opcode_to_string :: "nat \<Rightarrow> string"

text \<open>The other tables, each row with the columns of the \<^verbatim>\<open>INSERT\<close> that fills it.\<close>

record operations_row =
  op_opcode :: string
  op_script_id :: nat
  op_data :: "string option"

record inputs_row =
  input_id :: nat
  in_parent_id :: nat
  in_index_in_parent :: nat
  in_script_id :: nat
  previous_output_id :: "nat option"
  previous_output_hash :: string
  in_sequence :: "32 word"

record outputs_row =
  output_id :: nat
  out_parent_id :: nat
  out_index_in_parent :: nat
  out_script_id :: nat
  out_value :: "64 word"
  output_type :: string
  address :: "string option"

record transactions_row =
  transaction_id :: nat
  transaction_hash :: string
  tx_version :: "32 word"
  tx_locktime :: "32 word"

record transactions_parents_row =
  tp_transaction_id :: nat
  tp_block_id :: nat
  index_in_block :: nat

text \<open>
  The database: the tables, the sequence \<^verbatim>\<open>script_sequence\<close> and one sequence behind each
  \<^verbatim>\<open>DEFAULT\<close> identifier column. \<^verbatim>\<open>nextval\<close> increments a sequence and returns its new
  value.

  Modelled from the spec: the defaults of the columns of \<^verbatim>\<open>blocks\<close> that the \<^verbatim>\<open>INSERT\<close>
  does not name (the schema is not among the sources): a block record is created with its
  depth and its interval unset, and its identifier increases in arrival order.
\<close>

record database =
  tbl_blocks :: "block_row list"
  tbl_transactions :: "transactions_row list"
  tbl_transactions_parents :: "transactions_parents_row list"
  tbl_inputs :: "inputs_row list"
  tbl_outputs :: "outputs_row list"
  tbl_operations :: "operations_row list"
  seq_block_id :: nat
  seq_transaction_id :: nat
  seq_input_id :: nat
  seq_output_id :: nat
  script_sequence :: nat

text \<open>
  A storage function returns its value, or the exception that it raised, together with
  the database as it left it: no transaction spans the statements of a store, so the rows
  written before an exception stay.
\<close>

type_synonym 'a db_result = "(error + 'a) \<times> database"

text \<open>\<^verbatim>\<open>void postgresql_storage::insert(operation operation, size_t script_id)\<close>\<close>

definition insert_operation :: "externals \<Rightarrow> operation \<Rightarrow> nat \<Rightarrow> database \<Rightarrow> unit db_result" where
  "insert_operation ext operation script_id db =
     (let opcode_repr = opcode_to_string ext (code operation)
      in if length (data operation) = 0
         then (Inr (), db\<lparr>tbl_operations := tbl_operations db @
                 [\<lparr>op_opcode = opcode_repr, op_script_id = script_id, op_data = None\<rparr>]\<rparr>)
         else (case serialize_bytes (data operation) of
                 Inl e \<Rightarrow> (Inl e, db)
               | Inr byte_stream \<Rightarrow>
                   (Inr (), db\<lparr>tbl_operations := tbl_operations db @
                      [\<lparr>op_opcode = opcode_repr, op_script_id = script_id,
                        op_data = Some byte_stream\<rparr>]\<rparr>)))"

fun insert_operations :: "externals \<Rightarrow> operation list \<Rightarrow> nat \<Rightarrow> database \<Rightarrow> unit db_result" where
  "insert_operations ext [] script_id db = (Inr (), db)"
| "insert_operations ext (operation # operations) script_id db =
     (case insert_operation ext operation script_id db of
        (Inl e, db') \<Rightarrow> (Inl e, db')
      | (Inr u, db') \<Rightarrow> insert_operations ext operations script_id db')"

text \<open>\<^verbatim>\<open>size_t postgresql_storage::insert_script(operation_stack operations)\<close>\<close>

definition insert_script :: "externals \<Rightarrow> operation list \<Rightarrow> database \<Rightarrow> nat db_result" where
  "insert_script ext operations db =
     (let script_id = script_sequence db + 1
      in case insert_operations ext operations script_id (db\<lparr>script_sequence := script_id\<rparr>) of
           (Inl e, db') \<Rightarrow> (Inl e, db')
         | (Inr u, db') \<Rightarrow> (Inr script_id, db'))"

text \<open>
  \<^verbatim>\<open>void postgresql_storage::insert(net::message::transaction_input input,
  size_t transaction_id, size_t index_in_parent)\<close>
\<close>

definition insert_input :: "externals \<Rightarrow> transaction_input \<Rightarrow> nat \<Rightarrow> nat \<Rightarrow> database \<Rightarrow> unit db_result" where
  "insert_input ext input tid index_in_parent db =
     (case insert_script ext (input_script input) db of
        (Inl e, db') \<Rightarrow> (Inl e, db')
      | (Inr script_id, db') \<Rightarrow>
          (case serialize_bytes (hash input) of
             Inl e \<Rightarrow> (Inl e, db')
           | Inr hash_repr \<Rightarrow>
               (Inr (), db'\<lparr>seq_input_id := seq_input_id db' + 1,
                  tbl_inputs := tbl_inputs db' @
                    [\<lparr>input_id = seq_input_id db' + 1, in_parent_id = tid,
                      in_index_in_parent = index_in_parent, in_script_id = script_id,
                      previous_output_id = None, previous_output_hash = hash_repr,
                      in_sequence = sequence input\<rparr>]\<rparr>)))"

text \<open>
  \<^verbatim>\<open>void postgresql_storage::insert(net::message::transaction_output output,
  size_t transaction_id, size_t index_in_parent)\<close>; the column \<open>out_value\<close> holds the
  argument of the SQL function \<^verbatim>\<open>internal_to_sql\<close>.
\<close>

definition insert_output :: "externals \<Rightarrow> transaction_output \<Rightarrow> nat \<Rightarrow> nat \<Rightarrow> database \<Rightarrow> unit db_result" where
  "insert_output ext output tid index_in_parent db =
     (case insert_script ext (output_script output) db of
        (Inl e, db') \<Rightarrow> (Inl e, db')
      | (Inr script_id, db') \<Rightarrow>
          (Inr (), db'\<lparr>seq_output_id := seq_output_id db' + 1,
             tbl_outputs := tbl_outputs db' @
               [\<lparr>output_id = seq_output_id db' + 1, out_parent_id = tid,
                 out_index_in_parent = index_in_parent, out_script_id = script_id,
                 out_value = output_value output, output_type = ''other'',
                 address = None\<rparr>]\<rparr>))"

text \<open>The two loops \<^verbatim>\<open>for (size_t i = 0; i < ....size(); ++i)\<close>, from index \<open>i\<close> on.\<close>

fun insert_inputs :: "externals \<Rightarrow> transaction_input list \<Rightarrow> nat \<Rightarrow> nat \<Rightarrow> database \<Rightarrow> unit db_result" where
  "insert_inputs ext [] tid i db = (Inr (), db)"
| "insert_inputs ext (input # rest) tid i db =
     (case insert_input ext input tid i db of
        (Inl e, db') \<Rightarrow> (Inl e, db')
      | (Inr u, db') \<Rightarrow> insert_inputs ext rest tid (i + 1) db')"

fun insert_outputs :: "externals \<Rightarrow> transaction_output list \<Rightarrow> nat \<Rightarrow> nat \<Rightarrow> database \<Rightarrow> unit db_result" where
  "insert_outputs ext [] tid i db = (Inr (), db)"
| "insert_outputs ext (output # rest) tid i db =
     (case insert_output ext output tid i db of
        (Inl e, db') \<Rightarrow> (Inl e, db')
      | (Inr u, db') \<Rightarrow> insert_outputs ext rest tid (i + 1) db')"

text \<open>\<^verbatim>\<open>size_t postgresql_storage::insert(net::message::transaction transaction)\<close>\<close>

definition insert_transaction :: "externals \<Rightarrow> transaction \<Rightarrow> database \<Rightarrow> nat db_result" where
  "insert_transaction ext tx db =
     (case serialize_bytes (hash_transaction ext tx) of
        Inl e \<Rightarrow> (Inl e, db)
      | Inr transaction_hash_repr \<Rightarrow>
          (let tid = seq_transaction_id db + 1;
               db1 = db\<lparr>seq_transaction_id := tid,
                       tbl_transactions := tbl_transactions db @
                         [\<lparr>transaction_id = tid, transaction_hash = transaction_hash_repr,
                           tx_version = transaction_version tx, tx_locktime = locktime tx\<rparr>]\<rparr>
           in case insert_inputs ext (inputs tx) tid 0 db1 of
                (Inl e, db2) \<Rightarrow> (Inl e, db2)
              | (Inr u, db2) \<Rightarrow>
                  (case insert_outputs ext (outputs tx) tid 0 db2 of
                     (Inl e, db3) \<Rightarrow> (Inl e, db3)
                   | (Inr u', db3) \<Rightarrow> (Inr tid, db3))))"

text \<open>
  The loop of \<^verbatim>\<open>store(block)\<close> over \<^verbatim>\<open>block.transactions\<close>, from index \<open>i\<close> on: the
  transaction is inserted, then its row of \<^verbatim>\<open>transactions_parents\<close>.
\<close>

fun insert_block_transactions :: "externals \<Rightarrow> transaction list \<Rightarrow> nat \<Rightarrow> nat \<Rightarrow> database \<Rightarrow> unit db_result" where
  "insert_block_transactions ext [] bid i db = (Inr (), db)"
| "insert_block_transactions ext (tx # rest) bid i db =
     (case insert_transaction ext tx db of
        (Inl e, db') \<Rightarrow> (Inl e, db')
      | (Inr tid, db') \<Rightarrow>
          insert_block_transactions ext rest bid (i + 1)
            (db'\<lparr>tbl_transactions_parents := tbl_transactions_parents db' @
               [\<lparr>tp_transaction_id = tid, tp_block_id = bid, index_in_block = i\<rparr>]\<rparr>))"

text \<open>\<^verbatim>\<open>SELECT 1 FROM blocks WHERE block_hash=?\<close>\<close>

definition block_exists_query :: "database \<Rightarrow> string \<Rightarrow> block_row list" where
  "block_exists_query db block_hash_repr =
     filter (\<lambda>r. block_hash r = block_hash_repr) (tbl_blocks db)"

text \<open>
  \<^verbatim>\<open>void postgresql_storage::store(net::message::block block, operation_handler handle_store)\<close>.
  The result is the exception, if any, the database, and the arguments with which
  \<open>handle_store\<close> was called, in order.
\<close>

definition store_block :: "externals \<Rightarrow> block \<Rightarrow> database \<Rightarrow> error option \<times> database \<times> bool list" where
  "store_block ext blk db =
     (case serialize_bytes (hash_block_header ext blk) of
        Inl e \<Rightarrow> (Some e, db, [])
      | Inr block_hash_repr \<Rightarrow>
     (case serialize_bytes (prev_block blk) of
        Inl e \<Rightarrow> (Some e, db, [])
      | Inr prev_block_repr \<Rightarrow>
     (case serialize_bytes (merkle_root blk) of
        Inl e \<Rightarrow> (Some e, db, [])
      | Inr merkle_repr \<Rightarrow>
     (case fetch_row (block_exists_query db block_hash_repr) of
        Inl e \<Rightarrow> (Some e, db, [])
      | Inr (Some r) \<Rightarrow> (None, db, [])
      | Inr None \<Rightarrow>
          (let bid = seq_block_id db + 1;
               db1 = db\<lparr>seq_block_id := bid,
                       tbl_blocks := tbl_blocks db @
                         [\<lparr>block_id = bid, block_hash = block_hash_repr,
                           version = block_version blk, prev_block_hash = prev_block_repr,
                           merkle = merkle_repr, when_created = timestamp blk,
                           bits_head = drop_bit (8 * 3) (bits blk),
                           bits_body = bits blk AND 0x00ffffff, nonce = block_nonce blk,
                           depth = None, span_left = None, span_right = None\<rparr>]\<rparr>
           in case insert_block_transactions ext (transactions blk) bid 0 db1 of
                (Inl e, db2) \<Rightarrow> (Some e, db2, [])
              | (Inr u, db2) \<Rightarrow> (None, db2, [False]))))))"

section \<open>organize_blockchain\<close>

text \<open>
  \<^verbatim>\<open>SELECT block_id, prev_block_hash FROM blocks WHERE depth IS NULL ORDER BY block_id ASC\<close>
\<close>

definition pending_rows :: "blocks_table \<Rightarrow> (nat \<times> string) list" where
  "pending_rows s =
     map (\<lambda>r. (block_id r, prev_block_hash r))
       (sort_key block_id (filter (\<lambda>r. depth r = None) s))"

text \<open>
  \<^verbatim>\<open>SELECT block_id, depth, span_left, span_right FROM blocks
  WHERE block_hash=? AND depth IS NOT NULL\<close>
\<close>

definition parent_query :: "blocks_table \<Rightarrow> string \<Rightarrow> block_row list" where
  "parent_query s h = filter (\<lambda>r. block_hash r = h \<and> depth r \<noteq> None) s"

text \<open>
  \<^verbatim>\<open>SELECT 1 FROM blocks WHERE span_left >= ? AND span_right <= ? AND depth > ? LIMIT 1\<close>,
  bound to the parent's \<^verbatim>\<open>span_left\<close>, \<^verbatim>\<open>span_right\<close> and \<^verbatim>\<open>depth\<close>.
\<close>

definition has_children_query :: "blocks_table \<Rightarrow> nat \<Rightarrow> nat \<Rightarrow> nat \<Rightarrow> block_row list" where
  "has_children_query s pl pr pd =
     take 1 (filter (\<lambda>r. sql_ge (span_left r) pl \<and> sql_le (span_right r) pr \<and> sql_gt (depth r) pd) s)"

definition has_children :: "blocks_table \<Rightarrow> nat \<Rightarrow> nat \<Rightarrow> nat \<Rightarrow> bool" where
  "has_children s pl pr pd = (has_children_query s pl pr pd \<noteq> [])"

text \<open>\<^verbatim>\<open>UPDATE blocks SET span_left=span_left+1 WHERE span_left >= ?\<close>\<close>

definition shift_span_left :: "nat \<Rightarrow> blocks_table \<Rightarrow> blocks_table" where
  "shift_span_left chain_id s =
     map (\<lambda>r. if sql_ge (span_left r) chain_id
               then r\<lparr>span_left := map_option (\<lambda>x. x + 1) (span_left r)\<rparr> else r) s"

text \<open>\<^verbatim>\<open>UPDATE blocks SET span_right=span_right+1 WHERE span_right >= ?\<close>\<close>

definition shift_span_right :: "nat \<Rightarrow> blocks_table \<Rightarrow> blocks_table" where
  "shift_span_right chain_id s =
     map (\<lambda>r. if sql_ge (span_right r) chain_id
               then r\<lparr>span_right := map_option (\<lambda>x. x + 1) (span_right r)\<rparr> else r) s"

text \<open>\<^verbatim>\<open>UPDATE blocks SET depth=?, span_left=?, span_right=? WHERE block_id=?\<close>\<close>

definition update_linked :: "nat \<Rightarrow> nat \<Rightarrow> nat \<Rightarrow> blocks_table \<Rightarrow> blocks_table" where
  "update_linked d chain_id bid s =
     map (\<lambda>r. if block_id r = bid
               then r\<lparr>depth := Some d, span_left := Some chain_id, span_right := Some chain_id\<rparr>
               else r) s"

text \<open>
  The reads \<^verbatim>\<open>parent_result.get<size_t>(1..3)\<close>: \<open>depth\<close> is not NULL by the query, the
  two span columns may be.
\<close>

definition parent_columns :: "block_row \<Rightarrow> error + (nat \<times> nat \<times> nat)" where
  "parent_columns p =
     (case depth p of
        None \<Rightarrow> Inl null_value_fetch
      | Some pd \<Rightarrow>
          (case span_left p of
             None \<Rightarrow> Inl null_value_fetch
           | Some pl \<Rightarrow>
               (case span_right p of
                  None \<Rightarrow> Inl null_value_fetch
                | Some pr \<Rightarrow> Inr (pd, pl, pr))))"

text \<open>
  The body of the \<^verbatim>\<open>while (res.next())\<close> loop for one pending row
  \<open>(block_id, prev_block_hash)\<close>. \<^verbatim>\<open>size_t depth = parent_depth + 1\<close> is unsigned 64-bit
  arithmetic. An exception leaves the table as it was before the row: each of them is
  raised before the row's first \<^verbatim>\<open>UPDATE\<close>.

  Modelled from the spec: \<^verbatim>\<open>BITCOIN_ASSERT\<close> (bitcoin/util/assert.hpp is not among the
  sources) aborts the invocation when its condition is false.
\<close>

definition organize_row :: "nat \<times> string \<Rightarrow> blocks_table \<Rightarrow> error + blocks_table" where
  "organize_row p s =
     (case fetch_row (parent_query s (snd p)) of
        Inl e \<Rightarrow> Inl e
      | Inr None \<Rightarrow> Inr s
      | Inr (Some parent) \<Rightarrow>
          (case parent_columns parent of
             Inl e \<Rightarrow> Inl e
           | Inr (parent_depth, parent_span_left, parent_span_right) \<Rightarrow>
               if has_children s parent_span_left parent_span_right parent_depth
               then Inr (shift_span_right parent_span_right
                          (shift_span_left parent_span_right s))
               else if parent_span_left = parent_span_right
               then Inr (update_linked ((parent_depth + 1) mod 2 ^ 64) parent_span_left (fst p) s)
               else Inl assertion_failed))"

text \<open>
  The loop over the rows of the first query. The result is the exception that ended the
  invocation, if any, and the table as the invocation left it.
\<close>

fun organize_loop :: "(nat \<times> string) list \<Rightarrow> blocks_table \<Rightarrow> error option \<times> blocks_table" where
  "organize_loop [] s = (None, s)"
| "organize_loop (p # ps) s =
     (case organize_row p s of
        Inl e \<Rightarrow> (Some e, s)
      | Inr s' \<Rightarrow> organize_loop ps s')"

definition organize_blockchain :: "blocks_table \<Rightarrow> error option \<times> blocks_table" where
  "organize_blockchain s = organize_loop (pending_rows s) s"

text \<open>\<open>n\<close> invocations in a row; an invocation that ended in an exception is followed by the next.\<close>

fun organize_n :: "nat \<Rightarrow> blocks_table \<Rightarrow> blocks_table" where
  "organize_n 0 s = s"
| "organize_n (Suc n) s = organize_n n (snd (organize_blockchain s))"

section \<open>Reachable tables\<close>

text \<open>
  A table with a single linked root: the row \<open>rid\<close> is linked at depth 0 with an interval
  of one chain id, every other row is pending with depth and interval unset, and
  \<open>block_id\<close> is a key.
\<close>

definition initial_store :: "nat \<Rightarrow> blocks_table \<Rightarrow> bool" where
  "initial_store rid s =
     (distinct (map block_id s) \<and>
      (\<exists>root \<in> set s. block_id root = rid \<and> depth root = Some 0 \<and>
         span_left root \<noteq> None \<and> span_left root = span_right root) \<and>
      (\<forall>r \<in> set s. block_id r \<noteq> rid \<longrightarrow>
         depth r = None \<and> span_left r = None \<and> span_right r = None))"

text \<open>
  The tables that invocations of \<open>organize_blockchain\<close> reach from there, with the
  arrival of new pending rows (as \<open>store_block\<close> writes them, under a fresh identifier)
  between the invocations. The table that an invocation ended by an exception leaves
  behind is reachable as well.
\<close>

inductive reachable :: "nat \<Rightarrow> blocks_table \<Rightarrow> bool" for rid :: nat where
  reachable_initial: "initial_store rid s \<Longrightarrow> reachable rid s"
| reachable_organize: "reachable rid s \<Longrightarrow> reachable rid (snd (organize_blockchain s))"
| reachable_store:
    "reachable rid s \<Longrightarrow> block_id r \<notin> block_id ` set s \<Longrightarrow>
     depth r = None \<Longrightarrow> span_left r = None \<Longrightarrow> span_right r = None \<Longrightarrow>
     reachable rid (s @ [r])"

text \<open>
  Ancestry between linked rows: \<open>a\<close> is the parent of \<open>b\<close> when \<open>b\<close>'s
  \<open>prev_block_hash\<close> is \<open>a\<close>'s \<open>block_hash\<close>, and an ancestor when a chain of parents
  leads from \<open>b\<close> up to \<open>a\<close>.
\<close>

definition parent_of :: "blocks_table \<Rightarrow> block_row \<Rightarrow> block_row \<Rightarrow> bool" where
  "parent_of s a b =
     (a \<in> set s \<and> b \<in> set s \<and> depth a \<noteq> None \<and> depth b \<noteq> None \<and>
      block_hash a = prev_block_hash b)"

inductive ancestor :: "blocks_table \<Rightarrow> block_row \<Rightarrow> block_row \<Rightarrow> bool" for s :: blocks_table where
  ancestor_parent: "parent_of s a b \<Longrightarrow> ancestor s a b"
| ancestor_step: "ancestor s a b \<Longrightarrow> parent_of s b c \<Longrightarrow> ancestor s a c"

text \<open>The invariants of the reachable tables.\<close>

definition spans_uniform :: "blocks_table \<Rightarrow> bool" where
  "spans_uniform s =
     (\<exists>k. \<forall>r \<in> set s.
        (depth r = None \<and> span_left r = None \<and> span_right r = None) \<or>
        (depth r \<noteq> None \<and> span_left r = Some k \<and> span_right r = Some k))"

definition linked_count :: "blocks_table \<Rightarrow> nat" where
  "linked_count s = length (filter (\<lambda>r. depth r \<noteq> None) s)"

definition depth_bound :: "blocks_table \<Rightarrow> bool" where
  "depth_bound s = (\<forall>r \<in> set s. \<forall>d. depth r = Some d \<longrightarrow> d < linked_count s)"

definition parents_ok :: "nat \<Rightarrow> blocks_table \<Rightarrow> bool" where
  "parents_ok rid s =
     (\<forall>r \<in> set s. \<forall>d. depth r = Some d \<longrightarrow> block_id r \<noteq> rid \<longrightarrow>
        (\<exists>p \<in> set s. \<exists>pd. block_hash p = prev_block_hash r \<and> depth p = Some pd \<and> d = pd + 1))"

text \<open>
  What the loop of an invocation relies on for the rows it has not processed yet: they
  are in the table, still pending, under the \<open>prev_block_hash\<close> that the first query
  read.
\<close>

definition pending_ok :: "(nat \<times> string) list \<Rightarrow> blocks_table \<Rightarrow> bool" where
  "pending_ok ps s =
     (distinct (map fst ps) \<and>
      (\<forall>p \<in> set ps. (\<exists>r \<in> set s. block_id r = fst p) \<and>
         (\<forall>r \<in> set s. block_id r = fst p \<longrightarrow> depth r = None \<and> prev_block_hash r = snd p)))"

text \<open>
  A fork waiting in the table: the row \<open>bid\<close> is pending on the hash \<open>h\<close>, a linked row
  at depth \<open>pd\<close> has that hash, and some linked row is deeper than \<open>pd\<close>.
\<close>

definition fork_pending :: "nat \<Rightarrow> string \<Rightarrow> nat \<Rightarrow> blocks_table \<Rightarrow> bool" where
  "fork_pending bid h pd s =
     ((\<exists>x \<in> set s. block_id x = bid) \<and>
      (\<forall>x \<in> set s. block_id x = bid \<longrightarrow> depth x = None \<and> prev_block_hash x = h) \<and>
      (\<exists>P \<in> set s. block_hash P = h \<and> depth P = Some pd) \<and>
      (\<exists>Q \<in> set s. \<exists>qd. depth Q = Some qd \<and> pd < qd))"

section \<open>Scenarios\<close>

text \<open>A row of \<open>blocks\<close> with the columns that the organizer reads, the others fixed.\<close>

definition row :: "nat \<Rightarrow> string \<Rightarrow> string \<Rightarrow> nat option \<Rightarrow> nat option \<Rightarrow> nat option \<Rightarrow> block_row" where
  "row i h p d l r =
     \<lparr>block_id = i, block_hash = h, version = 1, prev_block_hash = p, merkle = [],
      when_created = 0, bits_head = 0, bits_body = 0, nonce = 0,
      depth = d, span_left = l, span_right = r\<rparr>"

text \<open>Scenario 1: the linked root \<open>R\<close> and a pending \<open>B1\<close> on it.\<close>

definition scenario1_store :: blocks_table where
  "scenario1_store =
     [row 1 ''R'' ''G'' (Some 0) (Some 0) (Some 0),
      row 2 ''B1'' ''R'' None None None]"

text \<open>
  Scenario 2, the fork at the root: \<open>R\<close> and \<open>B1\<close> linked on the chain id \<open>k\<close>, and a
  pending \<open>B2\<close> on \<open>R\<close>. The scenario starts at \<open>k = 0\<close>.
\<close>

definition fork_store :: "nat \<Rightarrow> blocks_table" where
  "fork_store k =
     [row 1 ''R'' ''G'' (Some 0) (Some k) (Some k),
      row 2 ''B1'' ''R'' (Some 1) (Some k) (Some k),
      row 3 ''B2'' ''R'' None None None]"

text \<open>A child that arrived before its parent: \<open>C\<close> on \<open>B\<close>, then \<open>B\<close> on the root.\<close>

definition backlog_store :: blocks_table where
  "backlog_store =
     [row 1 ''R'' ''G'' (Some 0) (Some 0) (Some 0),
      row 2 ''C'' ''B'' None None None,
      row 3 ''B'' ''R'' None None None]"

text \<open>
  A block to store: one transaction with one input and one output. The header hash is
  played by the merkle root, the transaction hash by a fixed byte.
\<close>

definition example_externals :: externals where
  "example_externals =
     \<lparr>hash_block_header = merkle_root, hash_transaction = (\<lambda>tx. [1]),
      opcode_to_string = (\<lambda>n. ''op'')\<rparr>"

definition example_block :: block where
  "example_block =
     \<lparr>block_version = 1, prev_block = [0], merkle_root = [0xab, 0xcd], timestamp = 0,
      bits = 0x1d00ffff, block_nonce = 7,
      transactions =
        [\<lparr>transaction_version = 1, locktime = 0,
          inputs = [\<lparr>hash = [0x11], input_script = [\<lparr>code = 0, data = []\<rparr>],
                     sequence = 0xffffffff\<rparr>],
          outputs = [\<lparr>output_value = 50,
                      output_script = [\<lparr>code = 1, data = [0x22]\<rparr>]\<rparr>]\<rparr>]\<rparr>"

definition empty_database :: database where
  "empty_database =
     \<lparr>tbl_blocks = [], tbl_transactions = [], tbl_transactions_parents = [],
      tbl_inputs = [], tbl_outputs = [], tbl_operations = [],
      seq_block_id = 0, seq_transaction_id = 0, seq_input_id = 0, seq_output_id = 0,
      script_sequence = 0\<rparr>"

text \<open>The database after \<open>example_block\<close> was stored into the empty one.\<close>

definition stored_database :: database where
  "stored_database =
     \<lparr>tbl_blocks =
        [\<lparr>block_id = 1, block_hash = ''ab cd'', version = 1, prev_block_hash = ''00'',
          merkle = ''ab cd'', when_created = 0, bits_head = 0x1d, bits_body = 0x00ffff,
          nonce = 7, depth = None, span_left = None, span_right = None\<rparr>],
      tbl_transactions =
        [\<lparr>transaction_id = 1, transaction_hash = ''01'', tx_version = 1, tx_locktime = 0\<rparr>],
      tbl_transactions_parents =
        [\<lparr>tp_transaction_id = 1, tp_block_id = 1, index_in_block = 0\<rparr>],
      tbl_inputs =
        [\<lparr>input_id = 1, in_parent_id = 1, in_index_in_parent = 0, in_script_id = 1,
          previous_output_id = None, previous_output_hash = ''11'',
          in_sequence = 0xffffffff\<rparr>],
      tbl_outputs =
        [\<lparr>output_id = 1, out_parent_id = 1, out_index_in_parent = 0, out_script_id = 2,
          out_value = 50, output_type = ''other'', address = None\<rparr>],
      tbl_operations =
        [\<lparr>op_opcode = ''op'', op_script_id = 1, op_data = None\<rparr>,
         \<lparr>op_opcode = ''op'', op_script_id = 2, op_data = Some ''22''\<rparr>],
      seq_block_id = 1, seq_transaction_id = 1, seq_input_id = 1, seq_output_id = 1,
      script_sequence = 2\<rparr>"

lemmas organizer_defs =
  organize_blockchain_def pending_rows_def organize_row_def parent_query_def
  parent_columns_def has_children_def has_children_query_def sql_ge_def sql_le_def
  sql_gt_def shift_span_left_def shift_span_right_def update_linked_def row_def

section \<open>The fork check\<close>

lemma sql_cmp_iff:
  "sql_ge c v \<longleftrightarrow> (\<exists>x. c = Some x \<and> v \<le> x)"
  "sql_le c v \<longleftrightarrow> (\<exists>x. c = Some x \<and> x \<le> v)"
  "sql_gt c v \<longleftrightarrow> (\<exists>x. c = Some x \<and> v < x)"
  by (cases c; simp add: sql_ge_def sql_le_def sql_gt_def)+

lemma has_children_sql:
  "has_children s pl pr pd \<longleftrightarrow>
   (\<exists>r \<in> set s. sql_ge (span_left r) pl \<and> sql_le (span_right r) pr \<and> sql_gt (depth r) pd)"
  by (auto simp: has_children_def has_children_query_def filter_empty_conv)

text \<open>
  Claim C8. The test \<open>has_children\<close> that the organizer runs for a candidate parent
  with interval \<open>(pl, pr)\<close> and depth \<open>pd\<close> is true exactly when some row has its depth
  set, its interval inside \<open>(pl, pr)\<close> with both ends allowed to coincide, and a depth
  greater than \<open>pd\<close>. A row whose depth is unset never counts.
\<close>

theorem fork_check_semantics:
  "has_children s pl pr pd \<longleftrightarrow>
   (\<exists>r \<in> set s. \<exists>d l u. depth r = Some d \<and> span_left r = Some l \<and> span_right r = Some u \<and>
      pl \<le> l \<and> u \<le> pr \<and> pd < d)"
proof -
  have "has_children s pl pr pd \<longleftrightarrow>
    (\<exists>r \<in> set s. sql_ge (span_left r) pl \<and> sql_le (span_right r) pr \<and> sql_gt (depth r) pd)"
    by (rule has_children_sql)
  also have "\<dots> \<longleftrightarrow>
    (\<exists>r \<in> set s. \<exists>d l u. depth r = Some d \<and> span_left r = Some l \<and> span_right r = Some u \<and>
      pl \<le> l \<and> u \<le> pr \<and> pd < d)"
    unfolding sql_cmp_iff by blast
  finally show ?thesis .
qed

text \<open>
  The test at the root of scenario 2 (true: \<open>B1\<close> is deeper, in the same interval), at
  \<open>B1\<close> (false), at the root of scenario 1 (false: the pending row does not count), and
  for an interval \<open>(1, 2)\<close> strictly inside \<open>(0, 4)\<close> (true: no exact match is needed).
\<close>

theorem fork_check_semantics_witness:
  "has_children (fork_store 0) 0 0 0 \<and> \<not> has_children (fork_store 0) 0 0 1 \<and>
   \<not> has_children scenario1_store 0 0 0 \<and>
   has_children [row 1 ''R'' ''G'' (Some 0) (Some 0) (Some 4),
                 row 2 ''B'' ''R'' (Some 1) (Some 1) (Some 2)] 0 4 0"
  unfolding fork_check_semantics by (simp add: fork_store_def scenario1_store_def row_def)

section \<open>The allocator shift\<close>

lemma shift_both:
  "shift_span_right c (shift_span_left c s) =
   map (\<lambda>r. r\<lparr>span_left := (case span_left r of None \<Rightarrow> None
                               | Some l \<Rightarrow> Some (if c \<le> l then l + 1 else l)),
            span_right := (case span_right r of None \<Rightarrow> None
                               | Some u \<Rightarrow> Some (if c \<le> u then u + 1 else u))\<rparr>) s"
  by (auto simp: shift_span_right_def shift_span_left_def sql_ge_def split: option.splits)

text \<open>
  Claim C5. When the parent query of a pending row \<open>p\<close> finds \<open>P\<close> and the fork check
  at \<open>P\<close> is true, the organizer, with \<open>slot\<close> the \<open>span_right\<close> of \<open>P\<close>, adds 1 to the
  \<open>span_left\<close> of every row whose \<open>span_left\<close> is at least \<open>slot\<close> and 1 to the
  \<open>span_right\<close> of every row whose \<open>span_right\<close> is at least \<open>slot\<close>, and changes
  nothing else: every depth stays as it is, unset columns stay unset, and so the pending
  row stays pending. When \<open>p\<close> is the only pending row, that is the whole invocation.
\<close>

theorem allocator_shift:
  assumes "fetch_row (parent_query s (snd p)) = Inr (Some P)"
    and "depth P = Some pd" and "span_left P = Some pl" and "span_right P = Some slot"
    and "has_children s pl slot pd"
  shows "\<exists>s'. organize_row p s = Inr s' \<and>
    (pending_rows s = [p] \<longrightarrow> organize_blockchain s = (None, s')) \<and>
    length s' = length s \<and>
    (\<forall>i < length s.
       span_left (s' ! i) =
         (case span_left (s ! i) of None \<Rightarrow> None
          | Some l \<Rightarrow> Some (if slot \<le> l then l + 1 else l)) \<and>
       span_right (s' ! i) =
         (case span_right (s ! i) of None \<Rightarrow> None
          | Some u \<Rightarrow> Some (if slot \<le> u then u + 1 else u)) \<and>
       depth (s' ! i) = depth (s ! i) \<and>
       s' ! i = (s ! i)\<lparr>span_left := span_left (s' ! i), span_right := span_right (s' ! i)\<rparr>)"
proof -
  have "organize_row p s = Inr (shift_span_right slot (shift_span_left slot s))"
    using assms by (simp add: organize_row_def parent_columns_def)
  then show ?thesis
    by (simp add: shift_both organize_blockchain_def)
qed

text \<open>Scenario 2: the pending \<open>B2\<close> finds the root, which has \<open>B1\<close> below it.\<close>

theorem allocator_shift_witness:
  "fetch_row (parent_query (fork_store 0) ''R'') =
     Inr (Some (row 1 ''R'' ''G'' (Some 0) (Some 0) (Some 0))) \<and>
   has_children (fork_store 0) 0 0 0 \<and>
   (\<exists>s'. organize_row (3, ''R'') (fork_store 0) = Inr s' \<and>
      span_left (s' ! 0) = Some 1 \<and> span_right (s' ! 0) = Some 1 \<and>
      span_left (s' ! 1) = Some 1 \<and> span_right (s' ! 1) = Some 1 \<and>
      depth (s' ! 2) = None \<and> span_left (s' ! 2) = None \<and> span_right (s' ! 2) = None)"
proof -
  have f: "fetch_row (parent_query (fork_store 0) (snd (3::nat, ''R''))) =
      Inr (Some (row 1 ''R'' ''G'' (Some 0) (Some 0) (Some 0)))"
    by (simp add: parent_query_def fork_store_def row_def)
  have h: "has_children (fork_store 0) 0 0 0"
    by (simp add: has_children_def has_children_query_def sql_cmp_iff fork_store_def row_def)
  have "depth (row 1 ''R'' ''G'' (Some 0) (Some 0) (Some 0)) = Some 0"
    "span_left (row 1 ''R'' ''G'' (Some 0) (Some 0) (Some 0)) = Some 0"
    "span_right (row 1 ''R'' ''G'' (Some 0) (Some 0) (Some 0)) = Some 0"
    by (simp_all add: row_def)
  from allocator_shift [OF f this h] obtain s' where
    s': "organize_row (3, ''R'') (fork_store 0) = Inr s'"
      "pending_rows (fork_store 0) = [(3, ''R'')] \<longrightarrow>
         organize_blockchain (fork_store 0) = (None, s')"
      "length s' = length (fork_store 0)"
      "\<forall>i < length (fork_store 0).
         span_left (s' ! i) =
           (case span_left (fork_store 0 ! i) of None \<Rightarrow> None
            | Some l \<Rightarrow> Some (if 0 \<le> l then l + 1 else l)) \<and>
         span_right (s' ! i) =
           (case span_right (fork_store 0 ! i) of None \<Rightarrow> None
            | Some u \<Rightarrow> Some (if 0 \<le> u then u + 1 else u)) \<and>
         depth (s' ! i) = depth (fork_store 0 ! i) \<and>
         s' ! i = (fork_store 0 ! i)\<lparr>span_left := span_left (s' ! i),
                                    span_right := span_right (s' ! i)\<rparr>"
    by blast
  have l: "length (fork_store 0) = 3"
    by (simp add: fork_store_def)
  from s'(4) l have "span_left (s' ! 0) = Some 1" "span_right (s' ! 0) = Some 1"
    "span_left (s' ! 1) = Some 1" "span_right (s' ! 1) = Some 1"
    "depth (s' ! 2) = None" "span_left (s' ! 2) = None" "span_right (s' ! 2) = None"
    by (simp_all add: fork_store_def row_def)
  with s'(1) f h show ?thesis by simp
qed

section \<open>The fork at the root\<close>

text \<open>
  One invocation on the table of scenario 2 takes the fork branch for \<open>B2\<close>: the
  intervals of \<open>R\<close> and \<open>B1\<close> move from \<open>k\<close> to \<open>k + 1\<close>, and \<open>B2\<close> stays pending.
\<close>

lemma organize_fork_store: "organize_blockchain (fork_store k) = (None, fork_store (k + 1))"
  by (simp add: organizer_defs fork_store_def)

section \<open>The round trip of the byte serialization\<close>

text \<open>A byte is written as its two hexadecimal digits, which \<open>extract_int\<close> reads back.\<close>

lemma hex_digit_table:
  "list_all (\<lambda>k. xdigit_value (hex_digit k) = Some k \<and> \<not> is_space (hex_digit k)) [0..<16]"
  by (simp add: upt_rec [of _ "numeral _"] xdigit_value_def hex_digit_def is_space_def Let_def)

lemma hex_digit_props:
  "xdigit_value (hex_digit n) = Some (n mod 16)" "\<not> is_space (hex_digit n)" "is_xdigit (hex_digit n)"
proof -
  have "n mod 16 \<in> set [0..<16]" by simp
  with hex_digit_table have "xdigit_value (hex_digit (n mod 16)) = Some (n mod 16) \<and> \<not> is_space (hex_digit (n mod 16))"
    unfolding list_all_iff by blast
  moreover have "hex_digit (n mod 16) = hex_digit n" by (simp add: hex_digit_def)
  ultimately show "xdigit_value (hex_digit n) = Some (n mod 16)" "\<not> is_space (hex_digit n)"
    by simp_all
  then show "is_xdigit (hex_digit n)" by (simp add: is_xdigit_def)
qed

lemma byte_repr:
  assumes "n < 256"
  shows "setw2 (hex_of_nat n) = [hex_digit (n div 16), hex_digit n]"
proof (cases "n < 16")
  case True
  then show ?thesis
    by (simp add: hex_of_nat.simps [of n] setw2_def hex_digit_def)
next
  case False
  with assms have "n div 16 < 16" by simp
  with False show ?thesis
    by (simp add: hex_of_nat.simps [of n] hex_of_nat.simps [of "n div 16"] setw2_def)
qed

lemma space_props: "is_space CHR '' ''" "\<not> is_xdigit CHR '' ''"
  by (simp_all add: is_space_def is_xdigit_def xdigit_value_def)

lemma hex_value_pair:
  assumes "n < 256"
  shows "hex_value [hex_digit (n div 16), hex_digit n] = n"
proof -
  from assms have "n div 16 mod 16 = n div 16" by simp
  then show ?thesis
    by (simp add: hex_value_def hex_digit_props)
qed

lemma extract_int_byte_space:
  assumes "n < 256"
  shows "extract_int (setw2 (hex_of_nat n) @ CHR '' '' # rest) = Some (int n, CHR '' '' # rest)"
  using assms
  by (simp add: extract_int_def byte_repr hex_digit_props space_props hex_value_pair Let_def)

lemma extract_int_byte_end:
  assumes "n < 256"
  shows "extract_int (setw2 (hex_of_nat n)) = None"
  using assms
  by (simp add: extract_int_def byte_repr hex_digit_props Let_def)

lemma extract_int_skip_space: "extract_int (CHR '' '' # ss) = extract_int ss"
  by (simp add: extract_int_def space_props)

lemma deserialize_loop_skip_space:
  "deserialize_loop val (CHR '' '' # ss) stack = deserialize_loop val ss stack"
  by (simp add: deserialize_loop.simps [of val "CHR '' '' # ss"] deserialize_loop.simps [of val ss]
      extract_int_skip_space)

lemma unat_byte: "unat (b :: 8 word) < 256"
  using unsigned_less [of b, where 'a = nat] by simp

lemma byte_of_unat: "word_of_int (int (unat (b :: 8 word))) = b"
  by simp

lemma deserialize_loop_serialized:
  "d \<noteq> [] \<Longrightarrow>
   deserialize_loop val
     (butlast (concat (map (\<lambda>b :: 8 word. setw2 (hex_of_nat (unat b)) @ '' '') d))) stack =
   stack @ word_of_int val # butlast d"
proof (induction d arbitrary: val stack)
  case Nil
  then show ?case by simp
next
  case (Cons b d)
  let ?f = "\<lambda>b :: 8 word. setw2 (hex_of_nat (unat b)) @ '' ''"
  show ?case
  proof (cases "d = []")
    case True
    then have "butlast (concat (map ?f (b # d))) = setw2 (hex_of_nat (unat b))"
      by (simp add: butlast_append)
    then show ?thesis
      using True by (simp add: deserialize_loop.simps [of val] extract_int_byte_end unat_byte)
  next
    case False
    then have ne: "concat (map ?f d) \<noteq> []" by (cases d) simp_all
    then have "butlast (concat (map ?f (b # d))) =
        setw2 (hex_of_nat (unat b)) @ CHR '' '' # butlast (concat (map ?f d))"
      by (simp add: butlast_append)
    then have "deserialize_loop val (butlast (concat (map ?f (b # d)))) stack =
        deserialize_loop (int (unat b)) (CHR '' '' # butlast (concat (map ?f d)))
          (stack @ [word_of_int val])"
      by (simp add: deserialize_loop.simps [of val] extract_int_byte_space unat_byte)
    also have "\<dots> = (stack @ [word_of_int val]) @ word_of_int (int (unat b)) # butlast d"
      unfolding deserialize_loop_skip_space using False by (rule Cons.IH)
    finally show ?thesis using False by (simp add: byte_of_unat)
  qed
qed

text \<open>
  Claim C10 fails. For every non-empty byte array \<open>d\<close>, \<open>deserialize_bytes\<close> applied
  to \<open>serialize_bytes d\<close> returns the uninitialised \<open>val\<close>, narrowed to a byte,
  followed by \<open>d\<close> without its last byte: the loop body pushes \<open>val\<close> before the first
  extraction, and reading the last value sets \<^verbatim>\<open>eofbit\<close>, so that value is never
  pushed. The result is \<open>d\<close> only when all the bytes of \<open>d\<close> are equal to each other
  and to what \<open>val\<close> happened to hold.
\<close>

theorem deserialize_serialize_shifted:
  assumes "d \<noteq> []"
  shows "\<exists>s. serialize_bytes d = Inr s \<and>
    deserialize_bytes uninit s = word_of_int uninit # butlast d"
proof -
  let ?ret = "concat (map (\<lambda>b :: 8 word. setw2 (hex_of_nat (unat b)) @ '' '') d)"
  from assms have "?ret \<noteq> []" by (cases d) simp_all
  then have "serialize_bytes d = Inr (butlast ?ret)"
    by (simp add: serialize_bytes_def Let_def butlast_conv_take)
  with deserialize_loop_serialized [OF assms, of uninit "[]"] show ?thesis
    by (simp add: deserialize_bytes_def)
qed

text \<open>
  At the two bytes \<open>01 02\<close> the result is not the data that was serialized, whatever the
  uninitialised value.
\<close>

theorem round_trip_fails:
  "serialize_bytes [1, 2] = Inr ''01 02'' \<and>
   (\<forall>uninit. deserialize_bytes uninit ''01 02'' = [word_of_int uninit, 1] \<and>
      deserialize_bytes uninit ''01 02'' \<noteq> [1, 2])"
proof -
  have s: "serialize_bytes [1, 2] = Inr ''01 02''"
    by (simp add: serialize_bytes_def setw2_def hex_of_nat.simps hex_digit_def)
  have "deserialize_bytes uninit ''01 02'' = [word_of_int uninit, 1]" for uninit
    using deserialize_serialize_shifted [of "[1, 2]" uninit] s by simp
  with s show ?thesis by simp
qed

section \<open>Invariants of the organizer\<close>


lemma fetch_row_Some: "fetch_row xs = Inr (Some x) \<Longrightarrow> xs = [x]"
  by (cases xs rule: fetch_row.cases) simp_all

lemma parent_query_single:
  assumes "fetch_row (parent_query s h) = Inr (Some P)"
  shows "P \<in> set s \<and> block_hash P = h \<and> depth P \<noteq> None"
proof -
  from assms have "parent_query s h = [P]" by (rule fetch_row_Some)
  then have "P \<in> set (parent_query s h)" by simp
  then show ?thesis by (simp add: parent_query_def)
qed

lemma parent_columns_Inr:
  "parent_columns P = Inr (pd, pl, pr) \<longleftrightarrow>
   depth P = Some pd \<and> span_left P = Some pl \<and> span_right P = Some pr"
  by (auto simp: parent_columns_def split: option.splits)

text \<open>The three ways in which the processing of a pending row ends without an exception.\<close>

lemma organize_row_cases:
  assumes "organize_row p s = Inr s'"
  obtains (skip) "parent_query s (snd p) = []" "s' = s"
  | (fork) P pd pl pr where "P \<in> set s" "block_hash P = snd p" "depth P = Some pd"
      "span_left P = Some pl" "span_right P = Some pr" "has_children s pl pr pd"
      "s' = shift_span_right pr (shift_span_left pr s)" "parent_query s (snd p) = [P]"
  | (link) P pd c where "P \<in> set s" "block_hash P = snd p" "depth P = Some pd"
      "span_left P = Some c" "span_right P = Some c" "\<not> has_children s c c pd"
      "s' = update_linked ((pd + 1) mod 2 ^ 64) c (fst p) s" "parent_query s (snd p) = [P]"
proof (cases "fetch_row (parent_query s (snd p))")
  case (Inl e)
  with assms show ?thesis by (simp add: organize_row_def)
next
  case (Inr po)
  show ?thesis
  proof (cases po)
    case None
    with Inr have "parent_query s (snd p) = []"
      by (cases "parent_query s (snd p)" rule: fetch_row.cases) simp_all
    moreover from None Inr assms have "s' = s" by (simp add: organize_row_def)
    ultimately show ?thesis by (rule skip)
  next
    case (Some P)
    with Inr have P: "P \<in> set s" "block_hash P = snd p"
      using parent_query_single by blast+
    from Some Inr have single: "parent_query s (snd p) = [P]"
      by (simp add: fetch_row_Some)
    show ?thesis
    proof (cases "parent_columns P")
      case (Inl e)
      with Some Inr assms show ?thesis by (simp add: organize_row_def)
    next
      case (Inr cols)
      obtain pd pl pr where cols: "cols = (pd, pl, pr)" by (cases cols)
      with Inr have c: "depth P = Some pd" "span_left P = Some pl" "span_right P = Some pr"
        by (simp_all add: parent_columns_Inr)
      show ?thesis
      proof (cases "has_children s pl pr pd")
        case True
        with assms Some \<open>fetch_row _ = Inr po\<close> Inr cols
        have "s' = shift_span_right pr (shift_span_left pr s)"
          by (simp add: organize_row_def)
        with P c True show ?thesis using single by (rule fork)
      next
        case False
        with assms Some \<open>fetch_row _ = Inr po\<close> Inr cols
        have eq: "pl = pr" and "s' = update_linked ((pd + 1) mod 2 ^ 64) pl (fst p) s"
          by (simp_all add: organize_row_def split: if_splits)
        with P c False single show ?thesis by (auto intro: link)
      qed
    qed
  qed
qed

lemma organize_row_assert:
  assumes "organize_row p s = Inl assertion_failed"
  shows "\<exists>P \<in> set s. depth P \<noteq> None \<and> span_left P \<noteq> span_right P"
proof -
  from assms obtain P where f: "fetch_row (parent_query s (snd p)) = Inr (Some P)"
    by (cases "parent_query s (snd p)" rule: fetch_row.cases)
       (auto simp: organize_row_def)
  then have P: "P \<in> set s" "depth P \<noteq> None" using parent_query_single by blast+
  have "parent_columns P \<noteq> Inl assertion_failed"
    by (simp add: parent_columns_def split: option.splits)
  with assms f obtain pd pl pr where "parent_columns P = Inr (pd, pl, pr)" "pl \<noteq> pr"
    by (cases "parent_columns P") (auto simp: organize_row_def split: if_splits)
  then have "span_left P \<noteq> span_right P" by (simp add: parent_columns_Inr)
  with P show ?thesis by blast
qed

lemma spans_uniform_shift:
  assumes "spans_uniform s" "P \<in> set s" "depth P \<noteq> None" "span_right P = Some pr"
  shows "spans_uniform (shift_span_right pr (shift_span_left pr s))"
proof -
  from assms(1) obtain k where k: "\<forall>r \<in> set s.
        (depth r = None \<and> span_left r = None \<and> span_right r = None) \<or>
        (depth r \<noteq> None \<and> span_left r = Some k \<and> span_right r = Some k)"
    unfolding spans_uniform_def by blast
  with assms(2-4) have "k = pr" by auto
  with k have "\<forall>r \<in> set (shift_span_right pr (shift_span_left pr s)).
        (depth r = None \<and> span_left r = None \<and> span_right r = None) \<or>
        (depth r \<noteq> None \<and> span_left r = Some (k + 1) \<and> span_right r = Some (k + 1))"
    by (auto simp: shift_both)
  then show ?thesis unfolding spans_uniform_def by blast
qed

lemma spans_uniform_link:
  assumes "spans_uniform s" "P \<in> set s" "depth P \<noteq> None" "span_left P = Some c"
  shows "spans_uniform (update_linked d c bid s)"
proof -
  from assms(1) obtain k where k: "\<forall>r \<in> set s.
        (depth r = None \<and> span_left r = None \<and> span_right r = None) \<or>
        (depth r \<noteq> None \<and> span_left r = Some k \<and> span_right r = Some k)"
    unfolding spans_uniform_def by blast
  with assms(2-4) have "k = c" by auto
  with k have "\<forall>r \<in> set (update_linked d c bid s).
        (depth r = None \<and> span_left r = None \<and> span_right r = None) \<or>
        (depth r \<noteq> None \<and> span_left r = Some k \<and> span_right r = Some k)"
    by (auto simp: update_linked_def)
  then show ?thesis unfolding spans_uniform_def by blast
qed

lemma spans_uniform_row:
  assumes "spans_uniform s" "organize_row p s = Inr s'"
  shows "spans_uniform s'"
  using assms(2)
proof (cases rule: organize_row_cases)
  case skip
  with assms(1) show ?thesis by simp
next
  case (fork P pd pl pr)
  with assms(1) show ?thesis by (simp add: spans_uniform_shift)
next
  case (link P pd c)
  with assms(1) show ?thesis by (simp add: spans_uniform_link)
qed

lemma spans_uniform_no_assert:
  assumes "spans_uniform s"
  shows "organize_row p s \<noteq> Inl assertion_failed"
proof
  assume "organize_row p s = Inl assertion_failed"
  then obtain P where "P \<in> set s" "depth P \<noteq> None" "span_left P \<noteq> span_right P"
    using organize_row_assert by blast
  with assms show False unfolding spans_uniform_def by auto
qed

lemma spans_uniform_loop:
  "spans_uniform s \<Longrightarrow>
   spans_uniform (snd (organize_loop ps s)) \<and> fst (organize_loop ps s) \<noteq> Some assertion_failed"
proof (induction ps arbitrary: s)
  case Nil
  then show ?case by simp
next
  case (Cons p ps)
  show ?case
  proof (cases "organize_row p s")
    case (Inl e)
    with Cons.prems spans_uniform_no_assert [of s p] show ?thesis by auto
  next
    case (Inr s')
    with Cons.prems have "spans_uniform s'" by (simp add: spans_uniform_row)
    with Cons.IH [of s'] Inr show ?thesis by simp
  qed
qed

lemma spans_uniform_initial: "initial_store rid s \<Longrightarrow> spans_uniform s"
proof -
  assume a: "initial_store rid s"
  then obtain root k where r: "root \<in> set s" "block_id root = rid" "depth root = Some 0"
    "span_left root = Some k" "span_right root = Some k"
    unfolding initial_store_def by (metis option.exhaust)
  from a have d: "distinct (map block_id s)" and
    o: "\<forall>r \<in> set s. block_id r \<noteq> rid \<longrightarrow> depth r = None \<and> span_left r = None \<and> span_right r = None"
    unfolding initial_store_def by blast+
  have "\<forall>x \<in> set s. (depth x = None \<and> span_left x = None \<and> span_right x = None) \<or>
        (depth x \<noteq> None \<and> span_left x = Some k \<and> span_right x = Some k)"
  proof
    fix x assume x: "x \<in> set s"
    show "(depth x = None \<and> span_left x = None \<and> span_right x = None) \<or>
        (depth x \<noteq> None \<and> span_left x = Some k \<and> span_right x = Some k)"
    proof (cases "block_id x = rid")
      case True
      with d x r(1,2) have "x = root" by (metis distinct_map inj_onD)
      with r show ?thesis by simp
    next
      case False
      with o x show ?thesis by blast
    qed
  qed
  then show ?thesis unfolding spans_uniform_def by blast
qed

lemma spans_uniform_reachable: "reachable rid s \<Longrightarrow> spans_uniform s"
proof (induction rule: reachable.induct)
  case (reachable_initial s)
  then show ?case by (rule spans_uniform_initial)
next
  case (reachable_organize s)
  then show ?case by (simp add: organize_blockchain_def spans_uniform_loop)
next
  case (reachable_store s r)
  then show ?case unfolding spans_uniform_def by auto
qed

lemma organize_scenario1:
  "organize_blockchain scenario1_store =
     (None, [row 1 ''R'' ''G'' (Some 0) (Some 0) (Some 0),
             row 2 ''B1'' ''R'' (Some 1) (Some 0) (Some 0)])"
  by (simp add: organizer_defs scenario1_store_def)

text \<open>
  The tables of scenario 2 are reachable: scenario 1, an invocation, the arrival of
  \<open>B2\<close>, and one more invocation for each step of \<open>k\<close>.
\<close>

lemma reachable_fork_store: "reachable 1 (fork_store k)"
proof (induction k)
  case 0
  have "reachable 1 scenario1_store"
    by (rule reachable_initial) (simp add: initial_store_def scenario1_store_def row_def)
  then have "reachable 1 (snd (organize_blockchain scenario1_store))"
    by (rule reachable_organize)
  then have "reachable 1 (snd (organize_blockchain scenario1_store) @ [row 3 ''B2'' ''R'' None None None])"
    by (rule reachable_store) (simp_all add: organize_scenario1, simp_all add: row_def)
  then show ?case
    by (simp add: organize_scenario1 fork_store_def)
next
  case (Suc k)
  then have "reachable 1 (snd (organize_blockchain (fork_store k)))"
    by (rule reachable_organize)
  then show ?case
    by (simp add: organize_fork_store)
qed

text \<open>
  Claim C7. In every table reachable from a single linked root, every linked row has
  \<open>span_left = span_right\<close>. So whenever the no-fork branch is taken the asserted
  equality holds for the parent: no pending row raises the assertion, and no invocation
  ends with it.
\<close>

theorem no_fork_assertion_safe:
  assumes "reachable rid s"
  shows "fst (organize_blockchain s) \<noteq> Some assertion_failed \<and>
         (\<forall>p. organize_row p s \<noteq> Inl assertion_failed) \<and>
         (\<forall>P \<in> set s. depth P \<noteq> None \<longrightarrow> span_left P = span_right P)"
proof -
  from assms have u: "spans_uniform s" by (rule spans_uniform_reachable)
  then have "fst (organize_blockchain s) \<noteq> Some assertion_failed"
    by (simp add: organize_blockchain_def spans_uniform_loop)
  moreover from u have "\<forall>p. organize_row p s \<noteq> Inl assertion_failed"
    by (simp add: spans_uniform_no_assert)
  moreover from u have "\<forall>P \<in> set s. depth P \<noteq> None \<longrightarrow> span_left P = span_right P"
    unfolding spans_uniform_def by auto
  ultimately show ?thesis by blast
qed

text \<open>Scenario 1 takes the no-fork branch for \<open>B1\<close> and links it.\<close>

theorem no_fork_assertion_safe_witness:
  "reachable 1 scenario1_store \<and>
   \<not> has_children scenario1_store 0 0 0 \<and>
   fst (organize_blockchain scenario1_store) \<noteq> Some assertion_failed \<and>
   organize_row (2, ''R'') scenario1_store \<noteq> Inl assertion_failed \<and>
   organize_blockchain scenario1_store =
     (None, [row 1 ''R'' ''G'' (Some 0) (Some 0) (Some 0),
             row 2 ''B1'' ''R'' (Some 1) (Some 0) (Some 0)])"
proof -
  have r: "reachable 1 scenario1_store"
    by (rule reachable_initial) (simp add: initial_store_def scenario1_store_def row_def)
  have "\<not> has_children scenario1_store 0 0 0"
    by (simp add: has_children_def has_children_query_def sql_cmp_iff scenario1_store_def row_def)
  with r no_fork_assertion_safe [OF r] organize_scenario1 show ?thesis
    by blast
qed

lemma ancestor_linked: "ancestor s a b \<Longrightarrow> a \<in> set s \<and> b \<in> set s \<and> depth a \<noteq> None \<and> depth b \<noteq> None"
  by (induction rule: ancestor.induct) (auto simp: parent_of_def)

text \<open>
  Claim C1. In every table reachable from a single linked root, if \<open>a\<close> is an ancestor
  of \<open>b\<close> then both have an interval, the left end of \<open>a\<close> is at most the left end of
  \<open>b\<close>, and the right end of \<open>b\<close> is at most the right end of \<open>a\<close>.
\<close>

theorem containment_invariant:
  assumes "reachable rid s" and "ancestor s a b"
  shows "\<exists>al ar bl br. span_left a = Some al \<and> span_right a = Some ar \<and>
           span_left b = Some bl \<and> span_right b = Some br \<and>
           al \<le> bl \<and> bl \<le> br \<and> br \<le> ar"
proof -
  from assms(1) have "spans_uniform s" by (rule spans_uniform_reachable)
  then obtain k where k: "\<forall>r \<in> set s.
        (depth r = None \<and> span_left r = None \<and> span_right r = None) \<or>
        (depth r \<noteq> None \<and> span_left r = Some k \<and> span_right r = Some k)"
    unfolding spans_uniform_def by blast
  from assms(2) have "a \<in> set s" "b \<in> set s" "depth a \<noteq> None" "depth b \<noteq> None"
    using ancestor_linked by blast+
  with k have "span_left a = Some k" "span_right a = Some k"
    "span_left b = Some k" "span_right b = Some k" by auto
  then show ?thesis by simp
qed

text \<open>After the first shift of scenario 2 the root contains \<open>B1\<close>: \<open>1 \<le> 1 \<le> 1 \<le> 1\<close>.\<close>

theorem containment_invariant_witness:
  "reachable 1 (fork_store 1) \<and>
   ancestor (fork_store 1) (fork_store 1 ! 0) (fork_store 1 ! 1) \<and>
   span_left (fork_store 1 ! 0) = Some 1 \<and> span_right (fork_store 1 ! 0) = Some 1 \<and>
   span_left (fork_store 1 ! 1) = Some 1 \<and> span_right (fork_store 1 ! 1) = Some 1"
proof -
  have r: "reachable 1 (fork_store 1)"
    by (rule reachable_fork_store)
  have a: "ancestor (fork_store 1) (fork_store 1 ! 0) (fork_store 1 ! 1)"
    by (rule ancestor_parent) (simp add: parent_of_def fork_store_def row_def)
  from containment_invariant [OF r a] r a show ?thesis
    by (simp add: fork_store_def row_def)
qed

section \<open>The depth of a linked row\<close>

text \<open>The updates of the organizer never touch \<open>block_id\<close>.\<close>

lemma block_id_shift [simp]:
  "map block_id (shift_span_right c (shift_span_left c s)) = map block_id s"
  by (simp add: shift_both)

lemma block_id_update_linked [simp]: "map block_id (update_linked d c bid s) = map block_id s"
  by (simp add: update_linked_def)

lemma block_id_organize_row: "organize_row p s = Inr s' \<Longrightarrow> map block_id s' = map block_id s"
  by (erule organize_row_cases) simp_all

lemma block_id_organize_loop: "map block_id (snd (organize_loop ps s)) = map block_id s"
proof (induction ps arbitrary: s)
  case Nil
  show ?case by simp
next
  case (Cons p ps)
  show ?case
  proof (cases "organize_row p s")
    case (Inl e)
    then show ?thesis by simp
  next
    case (Inr s')
    with Cons.IH [of s'] block_id_organize_row [OF Inr] show ?thesis by simp
  qed
qed

lemma linked_count_shift [simp]:
  "linked_count (shift_span_right c (shift_span_left c s)) = linked_count s"
  by (simp add: shift_both linked_count_def filter_map o_def)

lemma linked_count_update_linked:
  assumes "\<forall>r \<in> set s. block_id r = bid \<longrightarrow> depth r = None"
  shows "linked_count (update_linked d c bid s) =
         linked_count s + length (filter (\<lambda>r. block_id r = bid) s)"
  using assms by (induction s) (auto simp: linked_count_def update_linked_def)

lemma linked_count_grows:
  assumes "\<forall>r \<in> set s. block_id r = bid \<longrightarrow> depth r = None" and "x \<in> set s" "block_id x = bid"
  shows "linked_count s < linked_count (update_linked d c bid s)"
proof -
  from assms(2,3) have "x \<in> set (filter (\<lambda>r. block_id r = bid) s)" by simp
  then have "0 < length (filter (\<lambda>r. block_id r = bid) s)"
    by (metis length_pos_if_in_set)
  with linked_count_update_linked [OF assms(1)] show ?thesis by simp
qed

lemma linked_count_less:
  assumes "x \<in> set s" "depth x = None"
  shows "linked_count s < length s"
  unfolding linked_count_def using assms by (intro length_filter_less [of x]) simp_all

lemma set_shift:
  "r' \<in> set (shift_span_right c (shift_span_left c s)) \<Longrightarrow>
   \<exists>r \<in> set s. block_id r' = block_id r \<and> depth r' = depth r \<and>
      block_hash r' = block_hash r \<and> prev_block_hash r' = prev_block_hash r"
  by (auto simp: shift_both)

lemma shift_keeps:
  "r \<in> set s \<Longrightarrow>
   \<exists>r' \<in> set (shift_span_right c (shift_span_left c s)). block_id r' = block_id r \<and>
      depth r' = depth r \<and> block_hash r' = block_hash r \<and> prev_block_hash r' = prev_block_hash r"
  by (force simp: shift_both)

lemma set_update_linked:
  "r' \<in> set (update_linked d c bid s) \<Longrightarrow>
   (r' \<in> set s \<and> block_id r' \<noteq> bid) \<or>
   (\<exists>r \<in> set s. block_id r = bid \<and> block_id r' = bid \<and> depth r' = Some d \<and>
      block_hash r' = block_hash r \<and> prev_block_hash r' = prev_block_hash r)"
  by (auto simp: update_linked_def split: if_splits)

lemma update_linked_keeps:
  "r \<in> set s \<Longrightarrow> block_id r \<noteq> bid \<Longrightarrow> r \<in> set (update_linked d c bid s)"
  by (force simp: update_linked_def)

text \<open>The shift keeps the three invariants and the side condition of the loop.\<close>

lemma depth_bound_shift:
  "depth_bound s \<Longrightarrow> depth_bound (shift_span_right c (shift_span_left c s))"
  unfolding depth_bound_def by (auto dest!: set_shift) 

lemma parents_ok_shift:
  assumes "parents_ok rid s"
  shows "parents_ok rid (shift_span_right c (shift_span_left c s))"
  unfolding parents_ok_def
proof (intro ballI allI impI)
  fix r' d assume r': "r' \<in> set (shift_span_right c (shift_span_left c s))"
    and d: "depth r' = Some d" and n: "block_id r' \<noteq> rid"
  from r' obtain r where r: "r \<in> set s" "block_id r' = block_id r" "depth r' = depth r"
    "prev_block_hash r' = prev_block_hash r"
    using set_shift by blast
  with assms d n obtain q pd where q: "q \<in> set s" "block_hash q = prev_block_hash r"
    "depth q = Some pd" "d = pd + 1"
    unfolding parents_ok_def by metis
  from shift_keeps [OF q(1), of c] obtain q' where
    "q' \<in> set (shift_span_right c (shift_span_left c s))" "depth q' = depth q"
    "block_hash q' = block_hash q"
    by blast
  with q r show "\<exists>p \<in> set (shift_span_right c (shift_span_left c s)).
      \<exists>pd. block_hash p = prev_block_hash r' \<and> depth p = Some pd \<and> d = pd + 1"
    by auto
qed

lemma pending_ok_shift:
  assumes "pending_ok ps s"
  shows "pending_ok ps (shift_span_right c (shift_span_left c s))"
  unfolding pending_ok_def
proof (intro conjI ballI allI impI)
  show "distinct (map fst ps)" using assms by (simp add: pending_ok_def)
next
  fix p assume p: "p \<in> set ps"
  with assms obtain r where "r \<in> set s" "block_id r = fst p"
    unfolding pending_ok_def by blast
  with shift_keeps [of r s c]
  show "\<exists>r \<in> set (shift_span_right c (shift_span_left c s)). block_id r = fst p"
    by auto
next
  fix p r' assume p: "p \<in> set ps" and r': "r' \<in> set (shift_span_right c (shift_span_left c s))"
    and i: "block_id r' = fst p"
  from r' obtain r where r: "r \<in> set s" "block_id r' = block_id r" "depth r' = depth r"
    "prev_block_hash r' = prev_block_hash r"
    using set_shift by blast
  with assms p i have "depth r = None \<and> prev_block_hash r = snd p"
    unfolding pending_ok_def by auto
  with r show "depth r' = None" "prev_block_hash r' = snd p" by simp_all
qed

text \<open>Linking the first of the rows still to process keeps them as well.\<close>

lemma depth_bound_link:
  assumes "depth_bound s" and "pending_ok (p # ps) s"
    and "P \<in> set s" "depth P = Some pd"
  shows "depth_bound (update_linked ((pd + 1) mod 2 ^ 64) c (fst p) s)"
proof -
  from assms(2) obtain x where x: "x \<in> set s" "block_id x = fst p"
    and pend: "\<forall>r \<in> set s. block_id r = fst p \<longrightarrow> depth r = None"
    unfolding pending_ok_def by auto
  have g: "linked_count s < linked_count (update_linked ((pd + 1) mod 2 ^ 64) c (fst p) s)"
    using pend x by (rule linked_count_grows)
  from assms(1,3,4) have pd: "pd < linked_count s"
    unfolding depth_bound_def by blast
  have m: "(pd + 1) mod 2 ^ 64 \<le> pd + 1" by (rule mod_less_eq_dividend)
  show ?thesis
    unfolding depth_bound_def
  proof (intro ballI allI impI)
    fix r' d assume r': "r' \<in> set (update_linked ((pd + 1) mod 2 ^ 64) c (fst p) s)"
      and d: "depth r' = Some d"
    from set_update_linked [OF r'] show "d < linked_count (update_linked ((pd + 1) mod 2 ^ 64) c (fst p) s)"
    proof
      assume "r' \<in> set s \<and> block_id r' \<noteq> fst p"
      with assms(1) d have "d < linked_count s" unfolding depth_bound_def by blast
      with g show ?thesis by simp
    next
      assume "\<exists>r \<in> set s. block_id r = fst p \<and> block_id r' = fst p \<and>
        depth r' = Some ((pd + 1) mod 2 ^ 64) \<and>
        block_hash r' = block_hash r \<and> prev_block_hash r' = prev_block_hash r"
      with d have "d = (pd + 1) mod 2 ^ 64" by auto
      with m pd g show ?thesis by simp
    qed
  qed
qed

lemma parents_ok_link:
  assumes "parents_ok rid s" and "depth_bound s" and "pending_ok (p # ps) s"
    and "P \<in> set s" "block_hash P = snd p" "depth P = Some pd"
    and "length s \<le> 2 ^ 64"
  shows "parents_ok rid (update_linked ((pd + 1) mod 2 ^ 64) c (fst p) s)"
proof -
  from assms(3) obtain x where x: "x \<in> set s" "block_id x = fst p"
    and pend: "\<forall>r \<in> set s. block_id r = fst p \<longrightarrow> depth r = None \<and> prev_block_hash r = snd p"
    unfolding pending_ok_def by auto
  from x pend have "linked_count s < length s" by (auto intro: linked_count_less)
  moreover from assms(2,4,6) have "pd < linked_count s" unfolding depth_bound_def by blast
  ultimately have "pd + 1 < 2 ^ 64" using assms(7) by simp
  then have m: "(pd + 1) mod 2 ^ 64 = pd + 1" by simp
  have linked_kept: "q \<in> set (update_linked d c (fst p) s)"
    if "q \<in> set s" "depth q \<noteq> None" for q d
    using that pend by (intro update_linked_keeps) auto
  show ?thesis
    unfolding parents_ok_def m
  proof (intro ballI allI impI)
    fix r' d assume r': "r' \<in> set (update_linked (pd + 1) c (fst p) s)"
      and d: "depth r' = Some d" and n: "block_id r' \<noteq> rid"
    from set_update_linked [OF r']
    show "\<exists>q \<in> set (update_linked (pd + 1) c (fst p) s).
        \<exists>qd. block_hash q = prev_block_hash r' \<and> depth q = Some qd \<and> d = qd + 1"
    proof
      assume "r' \<in> set s \<and> block_id r' \<noteq> fst p"
      with assms(1) d n obtain q qd where q: "q \<in> set s" "block_hash q = prev_block_hash r'"
        "depth q = Some qd" "d = qd + 1"
        unfolding parents_ok_def by metis
      with linked_kept [of q "pd + 1"] show ?thesis by auto
    next
      assume "\<exists>r \<in> set s. block_id r = fst p \<and> block_id r' = fst p \<and>
        depth r' = Some (pd + 1) \<and>
        block_hash r' = block_hash r \<and> prev_block_hash r' = prev_block_hash r"
      with pend d have "prev_block_hash r' = snd p" "d = pd + 1" by auto
      with linked_kept [of P "pd + 1"] assms(4-6) show ?thesis by auto
    qed
  qed
qed

lemma pending_ok_link:
  assumes "pending_ok (p # ps) s"
  shows "pending_ok ps (update_linked d c (fst p) s)"
  unfolding pending_ok_def
proof (intro conjI ballI allI impI)
  show "distinct (map fst ps)" using assms by (simp add: pending_ok_def)
next
  fix q assume q: "q \<in> set ps"
  then have "fst q \<in> set (map fst ps)" by simp
  moreover from assms have "fst p \<notin> set (map fst ps)" unfolding pending_ok_def by simp
  ultimately have ne: "fst q \<noteq> fst p" by metis
  from q assms obtain r where "r \<in> set s" "block_id r = fst q"
    unfolding pending_ok_def by auto
  with ne update_linked_keeps [of r s "fst p" d c]
  show "\<exists>r \<in> set (update_linked d c (fst p) s). block_id r = fst q" by auto
next
  fix q r' assume q: "q \<in> set ps" and r': "r' \<in> set (update_linked d c (fst p) s)"
    and i: "block_id r' = fst q"
  from q have "fst q \<in> set (map fst ps)" by simp
  moreover from assms have "fst p \<notin> set (map fst ps)" unfolding pending_ok_def by simp
  ultimately have ne: "fst q \<noteq> fst p" by metis
  with set_update_linked [OF r'] i have "r' \<in> set s" by auto
  with assms q i show "depth r' = None" "prev_block_hash r' = snd q"
    unfolding pending_ok_def by auto
qed

lemma pending_ok_tail: "pending_ok (p # ps) s \<Longrightarrow> pending_ok ps s"
  unfolding pending_ok_def by simp

lemma organize_row_invariants:
  assumes "organize_row p s = Inr s'"
    and "depth_bound s" "parents_ok rid s" "pending_ok (p # ps) s" "length s \<le> 2 ^ 64"
  shows "depth_bound s' \<and> parents_ok rid s' \<and> pending_ok ps s'"
  using assms(1)
proof (cases rule: organize_row_cases)
  case skip
  with assms show ?thesis by (simp add: pending_ok_tail)
next
  case (fork P pd pl pr)
  with assms show ?thesis
    by (simp add: depth_bound_shift parents_ok_shift pending_ok_shift pending_ok_tail)
next
  case (link P pd c)
  from depth_bound_link [OF assms(2,4) link(1,3)]
    parents_ok_link [OF assms(3,2,4) link(1,2,3) assms(5)]
    pending_ok_link [OF assms(4)]
  show ?thesis unfolding link(7) by blast
qed

lemma organize_loop_invariants:
  assumes "depth_bound s" "parents_ok rid s" "pending_ok ps s" "length s \<le> 2 ^ 64"
  shows "depth_bound (snd (organize_loop ps s)) \<and> parents_ok rid (snd (organize_loop ps s))"
  using assms
proof (induction ps arbitrary: s)
  case Nil
  then show ?case by simp
next
  case (Cons p ps)
  show ?case
  proof (cases "organize_row p s")
    case (Inl e)
    with Cons.prems show ?thesis by simp
  next
    case (Inr s')
    from organize_row_invariants [OF Inr Cons.prems(1,2,3,4)]
    have i: "depth_bound s'" "parents_ok rid s'" "pending_ok ps s'" by simp_all
    from block_id_organize_row [OF Inr] have "length s' = length s"
      by (metis length_map)
    with Cons.prems(4) have "length s' \<le> 2 ^ 64" by simp
    with Cons.IH [OF i] Inr show ?thesis by simp
  qed
qed

lemma set_pending_rows:
  "p \<in> set (pending_rows s) \<longleftrightarrow>
   (\<exists>x \<in> set s. depth x = None \<and> p = (block_id x, prev_block_hash x))"
  by (auto simp: pending_rows_def)

lemma pending_ok_pending_rows:
  assumes "distinct (map block_id s)"
  shows "pending_ok (pending_rows s) s"
proof -
  let ?pend = "sort_key block_id (filter (\<lambda>r. depth r = None) s)"
  have f: "map fst (pending_rows s) = map block_id ?pend"
    by (simp add: pending_rows_def o_def)
  from assms have "distinct (map block_id (filter (\<lambda>r. depth r = None) s))"
    by (rule distinct_map_filter)
  then have "distinct (map block_id ?pend)"
    by (simp add: distinct_map)
  with f have d: "distinct (map fst (pending_rows s))" by simp
  from assms have inj: "inj_on block_id (set s)" by (simp add: distinct_map)
  have "(\<exists>r \<in> set s. block_id r = fst p) \<and>
         (\<forall>r \<in> set s. block_id r = fst p \<longrightarrow> depth r = None \<and> prev_block_hash r = snd p)"
    if "p \<in> set (pending_rows s)" for p
  proof -
    from that obtain x where x: "x \<in> set s" "depth x = None" 
      and p: "fst p = block_id x" "snd p = prev_block_hash x"
      unfolding set_pending_rows by auto
    have same: "r = x" if "r \<in> set s" "block_id r = fst p" for r
    proof -
      from that p have e: "block_id r = block_id x" by simp
      from inj e that(1) x(1) show ?thesis by (rule inj_onD)
    qed
    have "\<exists>r \<in> set s. block_id r = fst p" using x(1) p(1) by metis
    moreover have "\<forall>r \<in> set s. block_id r = fst p \<longrightarrow> depth r = None \<and> prev_block_hash r = snd p"
    proof (intro ballI impI)
      fix r assume "r \<in> set s" "block_id r = fst p"
      then have "r = x" by (rule same)
      with x(2) p(2) show "depth r = None \<and> prev_block_hash r = snd p" by simp
    qed
    ultimately show ?thesis by (rule conjI)
  qed
  with d show ?thesis unfolding pending_ok_def by blast
qed


lemma invariants_initial:
  assumes "initial_store rid s"
  shows "depth_bound s \<and> parents_ok rid s"
proof -
  from assms obtain root where root: "root \<in> set s" "block_id root = rid" "depth root = Some 0"
    unfolding initial_store_def by blast
  from assms have o: "\<forall>r \<in> set s. block_id r \<noteq> rid \<longrightarrow> depth r = None"
    unfolding initial_store_def by blast
  from assms have inj: "inj_on block_id (set s)"
    unfolding initial_store_def by (simp add: distinct_map)
  from root have "root \<in> set (filter (\<lambda>r. depth r \<noteq> None) s)" by simp
  then have c: "0 < linked_count s"
    unfolding linked_count_def by (metis length_pos_if_in_set)
  have "d = 0" if "r \<in> set s" "depth r = Some d" for r d
  proof -
    from that o have e: "block_id r = block_id root" using root(2) by auto
    from inj e that(1) root(1) have "r = root" by (rule inj_onD)
    with that(2) root(3) show ?thesis by simp
  qed
  with c have "depth_bound s" unfolding depth_bound_def by blast
  moreover from o have "parents_ok rid s" unfolding parents_ok_def by auto
  ultimately show ?thesis by (rule conjI)
qed

lemma distinct_ids_reachable: "reachable rid s \<Longrightarrow> distinct (map block_id s)"
proof (induction rule: reachable.induct)
  case (reachable_initial s)
  then show ?case by (simp add: initial_store_def)
next
  case (reachable_organize s)
  then show ?case by (simp add: organize_blockchain_def block_id_organize_loop)
next
  case (reachable_store s r)
  then show ?case by simp
qed

lemma length_organize_blockchain: "length (snd (organize_blockchain s)) = length s"
  using block_id_organize_loop [of "pending_rows s" s]
  unfolding organize_blockchain_def by (metis length_map)

lemma invariants_reachable:
  "reachable rid s \<Longrightarrow> length s \<le> 2 ^ 64 \<Longrightarrow> depth_bound s \<and> parents_ok rid s"
proof (induction rule: reachable.induct)
  case (reachable_initial s)
  then show ?case by (simp add: invariants_initial)
next
  case (reachable_organize s)
  from reachable_organize.prems have l: "length s \<le> 2 ^ 64"
    by (simp add: length_organize_blockchain)
  with reachable_organize.IH have i: "depth_bound s" "parents_ok rid s" by simp_all
  from reachable_organize.hyps have "pending_ok (pending_rows s) s"
    by (intro pending_ok_pending_rows distinct_ids_reachable)
  with i l show ?case
    unfolding organize_blockchain_def by (intro organize_loop_invariants)
next
  case (reachable_store s r)
  then have i: "depth_bound s" "parents_ok rid s" by simp_all
  from reachable_store.hyps(3) have c: "linked_count (s @ [r]) = linked_count s"
    by (simp add: linked_count_def)
  from i(1) reachable_store.hyps(3) have "depth_bound (s @ [r])"
    unfolding depth_bound_def c by auto
  moreover from i(2) reachable_store.hyps(3) have "parents_ok rid (s @ [r])"
    unfolding parents_ok_def by (auto; metis)
  ultimately show ?case by (rule conjI)
qed

text \<open>
  Claim C6. In every reachable table of at most \<open>2 ^ 64\<close> rows, every linked row
  other than the root (that is, every row that the organizer linked) has a linked parent:
  a row with depth set whose \<open>block_hash\<close> is the row's \<open>prev_block_hash\<close>, and the
  row's depth is the parent's depth plus 1. The bound on the table is what keeps
  \<^verbatim>\<open>size_t depth = parent_depth + 1\<close> from wrapping around: a depth is below the number
  of linked rows.
\<close>

theorem depth_invariant:
  assumes "reachable rid s" and "length s \<le> 2 ^ 64"
    and "r \<in> set s" and "depth r = Some d" and "block_id r \<noteq> rid"
  shows "\<exists>p \<in> set s. \<exists>pd. block_hash p = prev_block_hash r \<and> depth p = Some pd \<and> d = pd + 1"
proof -
  from assms(1,2) have "parents_ok rid s" by (simp add: invariants_reachable)
  with assms(3-5) show ?thesis unfolding parents_ok_def by blast
qed

text \<open>\<open>B1\<close> in scenario 2, after the first shift: its parent is the root, at depth 0.\<close>

theorem depth_invariant_witness:
  "reachable 1 (fork_store 1) \<and> length (fork_store 1) \<le> 2 ^ 64 \<and>
   fork_store 1 ! 1 \<in> set (fork_store 1) \<and> depth (fork_store 1 ! 1) = Some 1 \<and>
   block_id (fork_store 1 ! 1) \<noteq> 1 \<and>
   (\<exists>p \<in> set (fork_store 1). \<exists>pd.
      block_hash p = prev_block_hash (fork_store 1 ! 1) \<and> depth p = Some pd \<and> 1 = pd + 1)"
proof -
  have r: "reachable 1 (fork_store 1)"
    by (rule reachable_fork_store)
  have l: "length (fork_store 1) \<le> 2 ^ 64"
    by (simp add: fork_store_def)
  have m: "fork_store 1 ! 1 \<in> set (fork_store 1)"
    by (simp add: fork_store_def)
  have d: "depth (fork_store 1 ! 1) = Some 1"
    by (simp add: fork_store_def row_def)
  have n: "block_id (fork_store 1 ! 1) \<noteq> 1"
    by (simp add: fork_store_def row_def)
  from depth_invariant [OF r l m d n] r l m d n show ?thesis
    by blast
qed

section \<open>A fork is never linked\<close>

text \<open>The shift and the linking of another row leave a waiting fork waiting.\<close>

lemma fork_pending_shift:
  assumes "fork_pending bid h pd s"
  shows "fork_pending bid h pd (shift_span_right c (shift_span_left c s))"
proof -
  let ?s' = "shift_span_right c (shift_span_left c s)"
  from assms obtain x P Q qd where x: "x \<in> set s" "block_id x = bid"
    and P: "P \<in> set s" "block_hash P = h" "depth P = Some pd"
    and Q: "Q \<in> set s" "depth Q = Some qd" "pd < qd"
    and a: "\<forall>x \<in> set s. block_id x = bid \<longrightarrow> depth x = None \<and> prev_block_hash x = h"
    unfolding fork_pending_def by blast
  from shift_keeps [OF x(1), of c] x(2) have 1: "\<exists>x \<in> set ?s'. block_id x = bid" by auto
  have 2: "\<forall>x \<in> set ?s'. block_id x = bid \<longrightarrow> depth x = None \<and> prev_block_hash x = h"
  proof (intro ballI impI)
    fix y assume "y \<in> set ?s'" "block_id y = bid"
    with set_shift [of y c s] a show "depth y = None \<and> prev_block_hash y = h" by auto
  qed
  from shift_keeps [OF P(1), of c] P(2,3)
  have 3: "\<exists>P \<in> set ?s'. block_hash P = h \<and> depth P = Some pd" by auto
  from shift_keeps [OF Q(1), of c] Q(2,3)
  have 4: "\<exists>Q \<in> set ?s'. \<exists>qd. depth Q = Some qd \<and> pd < qd" by auto
  from 1 2 3 4 show ?thesis unfolding fork_pending_def by blast
qed

lemma fork_pending_link_other:
  assumes "fork_pending bid h pd s" and "bid' \<noteq> bid"
    and "\<forall>r \<in> set s. block_id r = bid' \<longrightarrow> depth r = None"
  shows "fork_pending bid h pd (update_linked d c bid' s)"
proof -
  let ?s' = "update_linked d c bid' s"
  from assms(1) obtain x P Q qd where x: "x \<in> set s" "block_id x = bid"
    and P: "P \<in> set s" "block_hash P = h" "depth P = Some pd"
    and Q: "Q \<in> set s" "depth Q = Some qd" "pd < qd"
    and a: "\<forall>x \<in> set s. block_id x = bid \<longrightarrow> depth x = None \<and> prev_block_hash x = h"
    unfolding fork_pending_def by blast
  from x assms(2) have "x \<in> set ?s'" by (intro update_linked_keeps) auto
  with x(2) have 1: "\<exists>x \<in> set ?s'. block_id x = bid" by blast
  have 2: "\<forall>x \<in> set ?s'. block_id x = bid \<longrightarrow> depth x = None \<and> prev_block_hash x = h"
  proof (intro ballI impI)
    fix y assume y: "y \<in> set ?s'" "block_id y = bid"
    with set_update_linked [OF y(1)] assms(2) have "y \<in> set s" by auto
    with a y(2) show "depth y = None \<and> prev_block_hash y = h" by blast
  qed
  from P assms(3) have "P \<in> set ?s'" by (intro update_linked_keeps) auto
  with P have 3: "\<exists>P \<in> set ?s'. block_hash P = h \<and> depth P = Some pd" by blast
  from Q assms(3) have "Q \<in> set ?s'" by (intro update_linked_keeps) auto
  with Q have 4: "\<exists>Q \<in> set ?s'. \<exists>qd. depth Q = Some qd \<and> pd < qd" by blast
  from 1 2 3 4 show ?thesis unfolding fork_pending_def by blast
qed

text \<open>The row of a fork finds its parent with a deeper row in the same interval.\<close>

lemma fork_pending_no_link:
  assumes "fork_pending bid h pd s" and "spans_uniform s"
    and "parent_query s h = [P]" and "depth P = Some pd'" "span_left P = Some c"
    and "span_right P = Some c"
  shows "has_children s c c pd'"
proof -
  from assms(1) obtain P0 Q qd where P0: "P0 \<in> set s" "block_hash P0 = h" "depth P0 = Some pd"
    and Q: "Q \<in> set s" "depth Q = Some qd" "pd < qd"
    unfolding fork_pending_def by blast
  from P0 have "P0 \<in> set (parent_query s h)" by (simp add: parent_query_def)
  with assms(3) have "P0 = P" by simp
  with P0 assms(4) have pd: "pd' = pd" by simp
  from assms(3) have "P \<in> set (parent_query s h)" by simp
  then have Ps: "P \<in> set s" by (simp add: parent_query_def)
  from assms(2) obtain k where k: "\<forall>r \<in> set s.
        (depth r = None \<and> span_left r = None \<and> span_right r = None) \<or>
        (depth r \<noteq> None \<and> span_left r = Some k \<and> span_right r = Some k)"
    unfolding spans_uniform_def by blast
  with Ps assms(4,5) have "k = c" by auto
  with k Q have "span_left Q = Some c" "span_right Q = Some c" by auto
  with Q pd show ?thesis unfolding has_children_sql sql_cmp_iff by blast
qed


lemma fork_pending_row:
  assumes "organize_row q s = Inr s'"
    and "fork_pending bid h pd s" and "spans_uniform s" and "pending_ok (q # ps) s"
  shows "fork_pending bid h pd s'"
  using assms(1)
proof (cases rule: organize_row_cases)
  case skip
  with assms(2) show ?thesis by simp
next
  case (fork P pd' pl pr)
  with assms(2) show ?thesis by (simp add: fork_pending_shift)
next
  case (link P pd' c)
  from assms(4) obtain r where r: "r \<in> set s" "block_id r = fst q"
    and pend: "\<forall>r \<in> set s. block_id r = fst q \<longrightarrow> depth r = None \<and> prev_block_hash r = snd q"
    unfolding pending_ok_def by auto
  show ?thesis
  proof (cases "fst q = bid")
    case True
    with r pend assms(2) have "snd q = h" unfolding fork_pending_def by metis
    with link(8) have "parent_query s h = [P]" by simp
    from fork_pending_no_link [OF assms(2,3) this link(3,4,5)] link(6)
    show ?thesis by simp
  next
    case False
    from pend have "\<forall>r \<in> set s. block_id r = fst q \<longrightarrow> depth r = None" by blast
    with assms(2) False show ?thesis
      unfolding link(7) by (intro fork_pending_link_other)
  qed
qed

lemma fork_pending_loop:
  assumes "fork_pending bid h pd s" and "spans_uniform s" and "pending_ok ps s"
  shows "fork_pending bid h pd (snd (organize_loop ps s))"
  using assms
proof (induction ps arbitrary: s)
  case Nil
  then show ?case by simp
next
  case (Cons q ps)
  show ?case
  proof (cases "organize_row q s")
    case (Inl e)
    with Cons.prems show ?thesis by simp
  next
    case (Inr s')
    from fork_pending_row [OF Inr Cons.prems(1,2,3)] have f: "fork_pending bid h pd s'" .
    from Cons.prems(2) Inr have u: "spans_uniform s'" by (rule spans_uniform_row)
    have p: "pending_ok ps s'"
      using Inr
    proof (cases rule: organize_row_cases)
      case skip
      with Cons.prems(3) show ?thesis by (simp add: pending_ok_tail)
    next
      case (fork P pd' pl pr)
      with Cons.prems(3) show ?thesis by (simp add: pending_ok_shift pending_ok_tail)
    next
      case (link P pd' c)
      with Cons.prems(3) show ?thesis by (simp add: pending_ok_link)
    qed
    from Cons.IH [OF f u p] Inr show ?thesis by simp
  qed
qed

lemma fork_pending_organize_n:
  assumes "reachable rid s" and "fork_pending bid h pd s"
  shows "fork_pending bid h pd (organize_n n s)"
  using assms
proof (induction n arbitrary: s)
  case 0
  then show ?case by simp
next
  case (Suc n)
  from Suc.prems(1) have "spans_uniform s" "pending_ok (pending_rows s) s"
    by (simp_all add: spans_uniform_reachable pending_ok_pending_rows distinct_ids_reachable)
  with Suc.prems(2) have "fork_pending bid h pd (snd (organize_blockchain s))"
    unfolding organize_blockchain_def by (intro fork_pending_loop)
  moreover from Suc.prems(1) have "reachable rid (snd (organize_blockchain s))"
    by (rule reachable_organize)
  ultimately show ?case using Suc.IH by simp
qed

text \<open>
  Claim C3 fails on every fork. In a reachable table, let \<open>r\<close> be a pending row whose
  parent \<open>P\<close> is linked while some linked row \<open>Q\<close> is deeper than \<open>P\<close> (a fork: \<open>P\<close>
  is not the tip). Then after any number \<open>n\<close> of invocations the row of \<open>r\<close> is still in
  the table and still pending: each invocation takes the fork branch for it, which shifts
  the intervals and never writes the depth.
\<close>

theorem fork_never_linked:
  assumes "reachable rid s"
    and "r \<in> set s" "depth r = None"
    and "P \<in> set s" "block_hash P = prev_block_hash r" "depth P = Some pd"
    and "Q \<in> set s" "depth Q = Some qd" "pd < qd"
  shows "(\<exists>x \<in> set (organize_n n s). block_id x = block_id r) \<and>
         (\<forall>x \<in> set (organize_n n s). block_id x = block_id r \<longrightarrow> depth x = None)"
proof -
  from assms(1) have "inj_on block_id (set s)"
    using distinct_ids_reachable by (simp add: distinct_map)
  then have "x = r" if "x \<in> set s" "block_id x = block_id r" for x
    using that assms(2) by (auto dest: inj_onD)
  with assms(2-9) have "fork_pending (block_id r) (prev_block_hash r) pd s"
    unfolding fork_pending_def by blast
  with assms(1) have "fork_pending (block_id r) (prev_block_hash r) pd (organize_n n s)"
    by (rule fork_pending_organize_n)
  then show ?thesis unfolding fork_pending_def by blast
qed

text \<open>
  Scenario 2: \<open>B2\<close> is pending on the root, which has \<open>B1\<close> below it. After \<open>n\<close>
  invocations the intervals of \<open>R\<close> and \<open>B1\<close> are \<open>(n, n)\<close> and \<open>B2\<close> is pending.
\<close>

theorem fork_never_linked_witness:
  "reachable 1 (fork_store 0) \<and>
   (\<forall>n. organize_n n (fork_store 0) = fork_store n \<and> depth (organize_n n (fork_store 0) ! 2) = None)"
proof -
  have r: "reachable 1 (fork_store 0)" by (rule reachable_fork_store)
  have e: "organize_n n (fork_store k) = fork_store (k + n)" for n k
    by (induction n arbitrary: k) (simp_all add: organize_fork_store)
  have m: "fork_store 0 ! 2 \<in> set (fork_store 0)" "depth (fork_store 0 ! 2) = None"
    "fork_store 0 ! 0 \<in> set (fork_store 0)"
    "block_hash (fork_store 0 ! 0) = prev_block_hash (fork_store 0 ! 2)"
    "depth (fork_store 0 ! 0) = Some 0"
    "fork_store 0 ! 1 \<in> set (fork_store 0)" "depth (fork_store 0 ! 1) = Some 1"
    by (simp_all add: fork_store_def row_def)
  have "depth (organize_n n (fork_store 0) ! 2) = None" for n
  proof -
    from fork_never_linked [OF r m, of n]
    have a: "\<forall>x \<in> set (organize_n n (fork_store 0)).
        block_id x = block_id (fork_store 0 ! 2) \<longrightarrow> depth x = None"
      by simp
    have "organize_n n (fork_store 0) ! 2 \<in> set (organize_n n (fork_store 0))"
      "block_id (organize_n n (fork_store 0) ! 2) = block_id (fork_store 0 ! 2)"
      unfolding e by (simp_all add: fork_store_def row_def)
    with a show ?thesis by blast
  qed
  with r e [of _ 0] show ?thesis by simp
qed

section \<open>Scenario 2, the fork at the root\<close>

text \<open>
  Claim C2, as stated, fails on the table of scenario 2. The first invocation changes
  \<open>B1\<close>: its interval moves to \<open>(1, 1)\<close> with the root's. The second invocation does
  not link \<open>B2\<close>, and leaves the interval \<open>(2, 2)\<close> at the root, not \<open>(0, 1)\<close>.
\<close>

theorem fork_scenario_counterexample:
  "snd (organize_blockchain (fork_store 0)) ! 1 \<noteq> fork_store 0 ! 1 \<and>
   depth (snd (organize_blockchain (snd (organize_blockchain (fork_store 0)))) ! 2) = None \<and>
   span_left (snd (organize_blockchain (snd (organize_blockchain (fork_store 0)))) ! 0) = Some 2 \<and>
   span_right (snd (organize_blockchain (snd (organize_blockchain (fork_store 0)))) ! 0) = Some 2"
  by (simp add: organize_fork_store) (simp add: fork_store_def row_def)

text \<open>
  Claim C2, amended. From a root \<open>R\<close> linked at depth 0 with interval \<open>(0, 0)\<close>, a
  child \<open>B1\<close> linked at depth 1 with interval \<open>(0, 0)\<close> and a pending \<open>B2\<close> on \<open>R\<close>,
  one invocation ends without an exception, leaves \<open>B1\<close> linked at depth 1 and \<open>B2\<close>
  pending, and shifts the intervals of both \<open>R\<close> and \<open>B1\<close> to \<open>(1, 1)\<close>; no other
  column changes.
\<close>

theorem fork_scenario_first_invocation:
  assumes "depth R = Some 0" "span_left R = Some 0" "span_right R = Some 0"
    and "depth B1 = Some 1" "span_left B1 = Some 0" "span_right B1 = Some 0"
    and "prev_block_hash B1 = block_hash R" "block_hash B1 \<noteq> block_hash R"
    and "depth B2 = None" "span_left B2 = None" "span_right B2 = None"
    and "prev_block_hash B2 = block_hash R"
  shows "organize_blockchain [R, B1, B2] =
    (None, [R\<lparr>span_left := Some 1, span_right := Some 1\<rparr>,
            B1\<lparr>span_left := Some 1, span_right := Some 1\<rparr>, B2])"
proof -
  have p: "pending_rows [R, B1, B2] = [(block_id B2, block_hash R)]"
    using assms by (simp add: pending_rows_def)
  have q: "fetch_row (parent_query [R, B1, B2] (block_hash R)) = Inr (Some R)"
    using assms by (simp add: parent_query_def)
  have c: "parent_columns R = Inr (0, 0, 0)"
    using assms by (simp add: parent_columns_def)
  have h: "has_children [R, B1, B2] 0 0 0"
    using assms by (simp add: has_children_def has_children_query_def sql_cmp_iff)
  have "organize_row (block_id B2, block_hash R) [R, B1, B2] =
      Inr (shift_span_right 0 (shift_span_left 0 [R, B1, B2]))"
    using q c h by (simp add: organize_row_def)
  also have "shift_span_right 0 (shift_span_left 0 [R, B1, B2]) =
      [R\<lparr>span_left := Some 1, span_right := Some 1\<rparr>,
       B1\<lparr>span_left := Some 1, span_right := Some 1\<rparr>, B2]"
    using assms by (simp add: shift_both)
  finally show ?thesis
    by (simp add: organize_blockchain_def p)
qed

theorem fork_scenario_first_invocation_witness:
  "organize_blockchain (fork_store 0) = (None, fork_store 1) \<and>
   depth (fork_store 1 ! 1) = Some 1 \<and> depth (fork_store 1 ! 2) = None \<and>
   span_left (fork_store 1 ! 0) = Some 1 \<and> span_right (fork_store 1 ! 0) = Some 1 \<and>
   span_left (fork_store 1 ! 1) = Some 1 \<and> span_right (fork_store 1 ! 1) = Some 1"
  using fork_scenario_first_invocation
    [of "row 1 ''R'' ''G'' (Some 0) (Some 0) (Some 0)"
        "row 2 ''B1'' ''R'' (Some 1) (Some 0) (Some 0)"
        "row 3 ''B2'' ''R'' None None None"]
  by (simp add: fork_store_def row_def)

section \<open>Repeated invocations\<close>

text \<open>
  Claim C4, as stated, fails when a child arrived before its parent: the first
  invocation links the parent \<open>B\<close> after it has passed the child \<open>C\<close>, and the second
  invocation, with no new pending row, links \<open>C\<close>.
\<close>

theorem idempotence_counterexample:
  "snd (organize_blockchain (snd (organize_blockchain backlog_store)))
     \<noteq> snd (organize_blockchain backlog_store)"
  by (simp add: organizer_defs backlog_store_def)

text \<open>An invocation that finds no linked parent for any pending row changes nothing.\<close>

lemma organize_loop_no_parent:
  "\<forall>p \<in> set ps. parent_query s (snd p) = [] \<Longrightarrow> organize_loop ps s = (None, s)"
  by (induction ps) (simp_all add: organize_row_def)

lemma organize_no_parent:
  assumes "\<forall>r \<in> set s. depth r = None \<longrightarrow> parent_query s (prev_block_hash r) = []"
  shows "organize_blockchain s = (None, s)"
  unfolding organize_blockchain_def
  by (rule organize_loop_no_parent) (use assms in \<open>auto simp: pending_rows_def\<close>)

text \<open>
  Claim C4, amended. When the first invocation leaves no pending row whose
  \<open>prev_block_hash\<close> is the \<open>block_hash\<close> of a linked row, the second invocation, with
  no new pending row in between, ends without an exception and changes nothing.
\<close>

theorem second_call_fixed_point:
  assumes "\<forall>r \<in> set (snd (organize_blockchain s)). depth r = None \<longrightarrow>
      parent_query (snd (organize_blockchain s)) (prev_block_hash r) = []"
  shows "organize_blockchain (snd (organize_blockchain s)) = (None, snd (organize_blockchain s))"
  using assms by (rule organize_no_parent)

text \<open>
  Scenario 1 with an orphan \<open>X\<close>: the first invocation links \<open>B1\<close>, the second finds
  only the orphan pending and changes nothing.
\<close>

theorem second_call_fixed_point_witness:
  "snd (organize_blockchain (scenario1_store @ [row 3 ''X'' ''Z'' None None None])) =
     [row 1 ''R'' ''G'' (Some 0) (Some 0) (Some 0),
      row 2 ''B1'' ''R'' (Some 1) (Some 0) (Some 0),
      row 3 ''X'' ''Z'' None None None] \<and>
   organize_blockchain (snd (organize_blockchain (scenario1_store @ [row 3 ''X'' ''Z'' None None None]))) =
     (None, snd (organize_blockchain (scenario1_store @ [row 3 ''X'' ''Z'' None None None])))"
proof -
  have e: "snd (organize_blockchain (scenario1_store @ [row 3 ''X'' ''Z'' None None None])) =
     [row 1 ''R'' ''G'' (Some 0) (Some 0) (Some 0),
      row 2 ''B1'' ''R'' (Some 1) (Some 0) (Some 0),
      row 3 ''X'' ''Z'' None None None]"
    by (simp add: organizer_defs scenario1_store_def)
  have "\<forall>r \<in> set (snd (organize_blockchain (scenario1_store @ [row 3 ''X'' ''Z'' None None None]))).
     depth r = None \<longrightarrow>
     parent_query (snd (organize_blockchain (scenario1_store @ [row 3 ''X'' ''Z'' None None None])))
       (prev_block_hash r) = []"
    unfolding e by (simp add: parent_query_def row_def)
  from second_call_fixed_point [OF this] e show ?thesis
    by simp
qed

section \<open>Storing a block that is already there\<close>

text \<open>The inserts below the row of the block never write to \<open>blocks\<close>.\<close>

lemma serialize_bytes_Inr: "d \<noteq> [] \<Longrightarrow> \<exists>h. serialize_bytes d = Inr h"
  by (cases d) (simp_all add: serialize_bytes_def Let_def)

lemma insert_operation_blocks:
  "tbl_blocks (snd (insert_operation ext operation script_id db)) = tbl_blocks db \<and>
   seq_block_id (snd (insert_operation ext operation script_id db)) = seq_block_id db"
  by (simp add: insert_operation_def Let_def split: sum.splits)

lemma insert_operations_blocks:
  "tbl_blocks (snd (insert_operations ext operations script_id db)) = tbl_blocks db"
proof (induction operations arbitrary: db)
  case Nil
  show ?case by simp
next
  case (Cons operation operations)
  obtain res db' where r: "insert_operation ext operation script_id db = (res, db')"
    by (cases "insert_operation ext operation script_id db")
  with insert_operation_blocks [of ext operation script_id db]
  have b: "tbl_blocks db' = tbl_blocks db" by simp
  show ?case
  proof (cases res)
    case (Inl e)
    with r b show ?thesis by simp
  next
    case (Inr u)
    with r b Cons.IH [of db'] show ?thesis by simp
  qed
qed

lemma insert_script_blocks:
  "tbl_blocks (snd (insert_script ext operations db)) = tbl_blocks db"
proof -
  let ?db1 = "db\<lparr>script_sequence := script_sequence db + 1\<rparr>"
  obtain res db' where r:
    "insert_operations ext operations (script_sequence db + 1) ?db1 = (res, db')"
    by (cases "insert_operations ext operations (script_sequence db + 1) ?db1")
  with insert_operations_blocks [of ext operations "script_sequence db + 1" ?db1]
  have "tbl_blocks db' = tbl_blocks db" by simp
  with r show ?thesis
    by (cases res) (simp_all add: insert_script_def Let_def)
qed

lemma insert_input_blocks:
  "tbl_blocks (snd (insert_input ext input tid i db)) = tbl_blocks db"
proof -
  obtain res db' where r: "insert_script ext (input_script input) db = (res, db')"
    by (cases "insert_script ext (input_script input) db")
  with insert_script_blocks [of ext "input_script input" db]
  have "tbl_blocks db' = tbl_blocks db" by simp
  with r show ?thesis
    by (cases res) (simp_all add: insert_input_def split: sum.splits)
qed

lemma insert_output_blocks:
  "tbl_blocks (snd (insert_output ext output tid i db)) = tbl_blocks db"
proof -
  obtain res db' where r: "insert_script ext (output_script output) db = (res, db')"
    by (cases "insert_script ext (output_script output) db")
  with insert_script_blocks [of ext "output_script output" db]
  have "tbl_blocks db' = tbl_blocks db" by simp
  with r show ?thesis
    by (cases res) (simp_all add: insert_output_def)
qed

lemma insert_inputs_blocks:
  "tbl_blocks (snd (insert_inputs ext ins tid i db)) = tbl_blocks db"
proof (induction ins arbitrary: i db)
  case Nil
  show ?case by simp
next
  case (Cons input ins)
  obtain res db' where r: "insert_input ext input tid i db = (res, db')"
    by (cases "insert_input ext input tid i db")
  with insert_input_blocks [of ext input tid i db]
  have b: "tbl_blocks db' = tbl_blocks db" by simp
  show ?case
  proof (cases res)
    case (Inl e)
    with r b show ?thesis by simp
  next
    case (Inr u)
    with r b Cons.IH [of "i + 1" db'] show ?thesis by simp
  qed
qed

lemma insert_outputs_blocks:
  "tbl_blocks (snd (insert_outputs ext outs tid i db)) = tbl_blocks db"
proof (induction outs arbitrary: i db)
  case Nil
  show ?case by simp
next
  case (Cons out outs)
  obtain res db' where r: "insert_output ext out tid i db = (res, db')"
    by (cases "insert_output ext out tid i db")
  with insert_output_blocks [of ext out tid i db]
  have b: "tbl_blocks db' = tbl_blocks db" by simp
  show ?case
  proof (cases res)
    case (Inl e)
    with r b show ?thesis by simp
  next
    case (Inr u)
    with r b Cons.IH [of "i + 1" db'] show ?thesis by simp
  qed
qed

lemma insert_transaction_blocks:
  "tbl_blocks (snd (insert_transaction ext tx db)) = tbl_blocks db"
proof (cases "serialize_bytes (hash_transaction ext tx)")
  case (Inl e)
  then show ?thesis by (simp add: insert_transaction_def)
next
  case (Inr h)
  let ?tid = "seq_transaction_id db + 1"
  let ?db1 = "db\<lparr>seq_transaction_id := ?tid,
      tbl_transactions := tbl_transactions db @
        [\<lparr>transaction_id = ?tid, transaction_hash = h,
          tx_version = transaction_version tx, tx_locktime = locktime tx\<rparr>]\<rparr>"
  obtain res2 db2 where r2: "insert_inputs ext (inputs tx) ?tid 0 ?db1 = (res2, db2)"
    by (cases "insert_inputs ext (inputs tx) ?tid 0 ?db1")
  with insert_inputs_blocks [of ext "inputs tx" ?tid 0 ?db1]
  have b2: "tbl_blocks db2 = tbl_blocks db" by simp
  obtain res3 db3 where r3: "insert_outputs ext (outputs tx) ?tid 0 db2 = (res3, db3)"
    by (cases "insert_outputs ext (outputs tx) ?tid 0 db2")
  with insert_outputs_blocks [of ext "outputs tx" ?tid 0 db2] b2
  have b3: "tbl_blocks db3 = tbl_blocks db" by simp
  from Inr r2 r3 b2 b3 show ?thesis
    by (cases res2; cases res3) (simp_all add: insert_transaction_def Let_def)
qed

lemma insert_block_transactions_blocks:
  "tbl_blocks (snd (insert_block_transactions ext txs bid i db)) = tbl_blocks db"
proof (induction txs arbitrary: i db)
  case Nil
  show ?case by simp
next
  case (Cons tx txs)
  obtain res db' where r: "insert_transaction ext tx db = (res, db')"
    by (cases "insert_transaction ext tx db")
  with insert_transaction_blocks [of ext tx db]
  have b: "tbl_blocks db' = tbl_blocks db" by simp
  show ?case
  proof (cases res)
    case (Inl e)
    with r b show ?thesis by simp
  next
    case (Inr tid)
    let ?db'' = "db'\<lparr>tbl_transactions_parents := tbl_transactions_parents db' @
               [\<lparr>tp_transaction_id = tid, tp_block_id = bid, index_in_block = i\<rparr>]\<rparr>"
    from Cons.IH [of "i + 1" ?db''] b have "tbl_blocks (snd (insert_block_transactions ext txs bid (i + 1) ?db'')) = tbl_blocks db"
      by simp
    with r Inr show ?thesis by simp
  qed
qed

lemma filter_key_distinct:
  "distinct (map f xs) \<Longrightarrow> length (filter (\<lambda>x. f x = v) xs) \<le> 1"
  by (induction xs) (auto simp: filter_empty_conv, metis imageI)

lemma fetch_row_nonempty:
  "xs \<noteq> [] \<Longrightarrow> (\<exists>x. fetch_row xs = Inr (Some x)) \<or> fetch_row xs = Inl multiple_rows_query"
  by (cases xs rule: fetch_row.cases) simp_all

lemma fetch_row_unique:
  "xs \<noteq> [] \<Longrightarrow> length xs \<le> 1 \<Longrightarrow> \<exists>x. fetch_row xs = Inr (Some x)"
  by (cases xs rule: fetch_row.cases) simp_all

lemma fetch_row_None: "fetch_row xs = Inr None \<longleftrightarrow> xs = []"
  by (cases xs rule: fetch_row.cases) simp_all

text \<open>The hash is in the table: nothing is written and the handler is not called.\<close>

lemma store_block_duplicate:
  assumes "r \<in> set (tbl_blocks db)"
    and "serialize_bytes (hash_block_header ext blk) = Inr (block_hash r)"
  shows "snd (store_block ext blk db) = (db, [])"
proof -
  from assms(1) have "block_exists_query db (block_hash r) \<noteq> []"
    by (auto simp: block_exists_query_def filter_empty_conv)
  from fetch_row_nonempty [OF this] assms(2) show ?thesis
    by (auto simp: store_block_def split: sum.splits)
qed

lemma store_block_duplicate_returns:
  assumes "r \<in> set (tbl_blocks db)"
    and "serialize_bytes (hash_block_header ext blk) = Inr (block_hash r)"
    and "distinct (map block_hash (tbl_blocks db))"
    and "prev_block blk \<noteq> []" "merkle_root blk \<noteq> []"
  shows "store_block ext blk db = (None, db, [])"
proof -
  from assms(1) have "block_exists_query db (block_hash r) \<noteq> []"
    by (auto simp: block_exists_query_def filter_empty_conv)
  moreover from assms(3) have "length (block_exists_query db (block_hash r)) \<le> 1"
    unfolding block_exists_query_def by (rule filter_key_distinct)
  ultimately obtain x where "fetch_row (block_exists_query db (block_hash r)) = Inr (Some x)"
    using fetch_row_unique by blast
  moreover from assms(4,5) obtain p m where "serialize_bytes (prev_block blk) = Inr p"
    "serialize_bytes (merkle_root blk) = Inr m"
    using serialize_bytes_Inr by blast
  ultimately show ?thesis
    using assms(2) by (simp add: store_block_def)
qed

text \<open>The handler was called: once, with \<open>false\<close>, after the row of the block was written.\<close>

lemma store_block_handler:
  assumes "snd (snd (store_block ext blk db)) \<noteq> []"
  shows "snd (snd (store_block ext blk db)) = [False] \<and> fst (store_block ext blk db) = None \<and>
    (\<exists>h. serialize_bytes (hash_block_header ext blk) = Inr h \<and>
       h \<notin> block_hash ` set (tbl_blocks db) \<and>
       h \<in> block_hash ` set (tbl_blocks (fst (snd (store_block ext blk db)))))"
proof -
  from assms obtain h p m where s: "serialize_bytes (hash_block_header ext blk) = Inr h"
    "serialize_bytes (prev_block blk) = Inr p" "serialize_bytes (merkle_root blk) = Inr m"
    by (auto simp: store_block_def split: sum.splits)
  from assms s have n: "fetch_row (block_exists_query db h) = Inr None"
    by (auto simp: store_block_def split: sum.splits option.splits)
  then have "block_exists_query db h = []" by (simp add: fetch_row_None)
  then have fresh: "h \<notin> block_hash ` set (tbl_blocks db)"
    by (auto simp: block_exists_query_def filter_empty_conv)
  let ?bid = "seq_block_id db + 1"
  let ?row = "\<lparr>block_id = ?bid, block_hash = h,
                version = block_version blk, prev_block_hash = p,
                merkle = m, when_created = timestamp blk,
                bits_head = drop_bit (8 * 3) (bits blk),
                bits_body = bits blk AND 0x00ffffff, nonce = block_nonce blk,
                depth = None, span_left = None, span_right = None\<rparr>"
  let ?db1 = "db\<lparr>seq_block_id := ?bid, tbl_blocks := tbl_blocks db @ [?row]\<rparr>"
  obtain res db2 where r: "insert_block_transactions ext (transactions blk) ?bid 0 ?db1 = (res, db2)"
    by (cases "insert_block_transactions ext (transactions blk) ?bid 0 ?db1")
  with insert_block_transactions_blocks [of ext "transactions blk" ?bid 0 ?db1]
  have b: "tbl_blocks db2 = tbl_blocks db @ [?row]" by simp
  from s n r have e: "store_block ext blk db =
      (case res of Inl e \<Rightarrow> (Some e, db2, []) | Inr u \<Rightarrow> (None, db2, [False]))"
    by (simp add: store_block_def Let_def)
  with assms obtain u where "res = Inr u" by (cases res) simp_all
  with e have "store_block ext blk db = (None, db2, [False])" by simp
  with b s(1) fresh show ?thesis by simp
qed

text \<open>
  Claim C9. If the serialized header hash of the block is the \<open>block_hash\<close> of a row of
  \<open>blocks\<close>, \<open>store_block\<close> leaves the whole database as it is, so it inserts no row
  in any table, and it does not call the handler; where \<open>block_hash\<close> is a key of the
  table (and the block's two other hashes are not empty) it returns normally. And if the
  handler was called, it was called once, with \<open>false\<close>, by a store that ended without
  an exception and had inserted the row of the block, whose hash was not in the table
  before.
\<close>

theorem store_duplicate_block:
  "((\<exists>r \<in> set (tbl_blocks db). serialize_bytes (hash_block_header ext blk) = Inr (block_hash r)) \<longrightarrow>
      snd (store_block ext blk db) = (db, []) \<and>
      (distinct (map block_hash (tbl_blocks db)) \<and> prev_block blk \<noteq> [] \<and> merkle_root blk \<noteq> [] \<longrightarrow>
         store_block ext blk db = (None, db, []))) \<and>
   (snd (snd (store_block ext blk db)) \<noteq> [] \<longrightarrow>
      snd (snd (store_block ext blk db)) = [False] \<and> fst (store_block ext blk db) = None \<and>
      (\<exists>h. serialize_bytes (hash_block_header ext blk) = Inr h \<and>
         h \<notin> block_hash ` set (tbl_blocks db) \<and>
         h \<in> block_hash ` set (tbl_blocks (fst (snd (store_block ext blk db))))))"
  using store_block_duplicate [of _ db ext blk] store_block_duplicate_returns [of _ db ext blk]
    store_block_handler [of ext blk db]
  by blast

text \<open>
  \<open>example_block\<close> stored twice: the first store inserts it and calls the handler, the
  second one finds the hash and does neither.
\<close>

lemma store_example:
  "store_block example_externals example_block empty_database =
     (None, stored_database, [False])"
  by (simp add: store_block_def example_externals_def example_block_def empty_database_def
      stored_database_def serialize_bytes_def setw2_def hex_of_nat.simps hex_digit_def
      block_exists_query_def insert_transaction_def insert_input_def insert_output_def
      insert_script_def insert_operation_def Let_def)

theorem store_duplicate_block_witness:
  "store_block example_externals example_block empty_database =
     (None, stored_database, [False]) \<and>
   serialize_bytes (hash_block_header example_externals example_block) = Inr ''ab cd'' \<and>
   map block_hash (tbl_blocks stored_database) = [''ab cd''] \<and>
   store_block example_externals example_block stored_database = (None, stored_database, [])"
proof -
  have h: "serialize_bytes (hash_block_header example_externals example_block) = Inr ''ab cd''"
    by (simp add: example_externals_def example_block_def serialize_bytes_def setw2_def
        hex_of_nat.simps hex_digit_def)
  have b: "map block_hash (tbl_blocks stored_database) = [''ab cd'']"
    by (simp add: stored_database_def)
  then have d: "distinct (map block_hash (tbl_blocks stored_database))"
    by simp
  have e: "\<exists>r \<in> set (tbl_blocks stored_database).
      serialize_bytes (hash_block_header example_externals example_block) = Inr (block_hash r)"
    unfolding h by (simp add: stored_database_def)
  have n: "prev_block example_block \<noteq> []" "merkle_root example_block \<noteq> []"
    by (simp_all add: example_block_def)
  from store_duplicate_block [of stored_database example_externals example_block] e d n
  have "store_block example_externals example_block stored_database = (None, stored_database, [])"
    by blast
  with store_example h b show ?thesis
    by simp
qed

end
